theory Spec2Isabelle
  imports Complex_Main "HOL-Library.Sublist"
begin

section \<open>Exceptions\<close>

text \<open>
  An exception is either a \<open>RuntimeError\<close>, the class the handler of \<open>train\<close> catches,
  with its message, or any other exception, with the name of its class.
\<close>

datatype exn = RuntimeError string | OtherError string

section \<open>The arithmetic of the tensors\<close>

text \<open>
  The tensors of the program hold \<open>float32\<close> values: a finite number, one of the two
  infinities, or NaN. \<open>Fin x\<close> is meant for a number \<open>x\<close> of the format; every operation
  below returns such a number, an infinity or NaN. The two zeros are not told apart (they
  are equal in every comparison, and the program never divides by a tensor).
\<close>

datatype f32 = Fin real | PInf | NInf | NaN

text \<open>
  Rounding to the nearest number of the format, ties to the even significand. Around \<open>x\<close>
  the numbers of the format are the multiples of \<open>ulp x\<close>: 24 bits of significand, and
  the fixed spacing \<open>2^-149\<close> below \<open>2^-126\<close>. The largest number is \<open>2^128 - 2^104\<close>;
  from half way to \<open>2^128\<close> on, the result is an infinity.
\<close>

definition round_even :: "real \<Rightarrow> int" where
  "round_even y =
     (let f = \<lfloor>y\<rfloor>; d = y - of_int f
      in if d < 1 / 2 then f else if 1 / 2 < d then f + 1 else if even f then f else f + 1)"

definition ulp :: "real \<Rightarrow> real" where
  "ulp x = 2 powr of_int (max \<lfloor>log 2 \<bar>x\<bar>\<rfloor> (- 126) - 23)"

definition rnd :: "real \<Rightarrow> real" where
  "rnd x = (if x = 0 then 0 else of_int (round_even (x / ulp x)) * ulp x)"

definition r32 :: "real \<Rightarrow> f32" where
  "r32 x =
     (if 2 ^ 128 - 2 ^ 103 \<le> x then PInf
      else if x \<le> - (2 ^ 128 - 2 ^ 103) then NInf
      else Fin (rnd x))"

text \<open>
  The operations the loss uses: on finite numbers the exact result, rounded; on the
  others as IEEE 754 has it. \<open>th.exp\<close> and \<open>th.log\<close> are taken as correctly rounded, which
  the library does not promise to the last bit; what is proved below rests only on where
  they overflow, underflow or are exact.
\<close>

fun fneg :: "f32 \<Rightarrow> f32" where
  "fneg (Fin x) = Fin (- x)"
| "fneg PInf = NInf"
| "fneg NInf = PInf"
| "fneg NaN = NaN"

fun fadd :: "f32 \<Rightarrow> f32 \<Rightarrow> f32" where
  "fadd (Fin x) (Fin y) = r32 (x + y)"
| "fadd NaN y = NaN"
| "fadd x NaN = NaN"
| "fadd PInf NInf = NaN"
| "fadd NInf PInf = NaN"
| "fadd PInf y = PInf"
| "fadd x PInf = PInf"
| "fadd NInf y = NInf"
| "fadd x NInf = NInf"

definition fsub :: "f32 \<Rightarrow> f32 \<Rightarrow> f32" where
  "fsub x y = fadd x (fneg y)"

fun negative :: "f32 \<Rightarrow> bool" where
  "negative (Fin x) = (x < 0)"
| "negative NInf = True"
| "negative PInf = False"
| "negative NaN = False"

fun fmul :: "f32 \<Rightarrow> f32 \<Rightarrow> f32" where
  "fmul (Fin x) (Fin y) = r32 (x * y)"
| "fmul NaN y = NaN"
| "fmul x NaN = NaN"
| "fmul x y =
     (if x = Fin 0 \<or> y = Fin 0 then NaN else if negative x \<noteq> negative y then NInf else PInf)"

fun fdiv :: "f32 \<Rightarrow> f32 \<Rightarrow> f32" where
  "fdiv (Fin x) (Fin y) =
     (if y = 0 then (if x = 0 then NaN else if x < 0 then NInf else PInf) else r32 (x / y))"
| "fdiv NaN y = NaN"
| "fdiv x NaN = NaN"
| "fdiv (Fin x) y = Fin 0"
| "fdiv x (Fin y) = (if negative x \<noteq> (y < 0) then NInf else PInf)"
| "fdiv x y = NaN"

fun fexp :: "f32 \<Rightarrow> f32" where
  "fexp (Fin x) = r32 (exp x)"
| "fexp PInf = PInf"
| "fexp NInf = Fin 0"
| "fexp NaN = NaN"

fun flog :: "f32 \<Rightarrow> f32" where
  "flog (Fin x) = (if x < 0 then NaN else if x = 0 then NInf else r32 (ln x))"
| "flog PInf = PInf"
| "flog NInf = NaN"
| "flog NaN = NaN"

text \<open>
  \<open>sum\<close> and \<open>mean\<close>: the elements are added from left to right (the library fixes no
  order; nothing below depends on it), and the mean divides the sum by the number of
  elements, so that the mean of an empty tensor is \<open>0 / 0\<close>, NaN.
\<close>

definition fsum :: "f32 list \<Rightarrow> f32" where
  "fsum xs = foldl fadd (Fin 0) xs"

definition fmean :: "f32 list \<Rightarrow> f32" where
  "fmean xs = fdiv (fsum xs) (r32 (real (length xs)))"

section \<open>The objective: \<open>LogCoshVAE.loss\<close>\<close>

text \<open>
  \<open>alpha\<close>, \<open>beta\<close> and \<open>kld_weight\<close> are Python floats, read as real numbers (their
  own rounding, to double precision, is left out); they are rounded to \<open>float32\<close> where
  they meet a tensor. An image batch is the list of its
  elements: the reconstruction term is elementwise followed by one mean over all
  elements, and \<open>real\<close> and \<open>fake\<close> have one shape, so the shape is not recorded. \<open>mu\<close> and
  \<open>log_var\<close> are lists (batch) of lists (latent dimensions).
\<close>

record LogCoshVAE =
  alpha :: real
  beta :: real
  kld_weight :: real

record loss_dict =
  Total :: f32
  Reconstruction :: f32
  Kullback_Leibler_Divergence :: f32

text \<open>
  Line 163, for the element \<open>t\<close> of \<open>fake - real\<close>:
  \<open>alpha * t + log(1.0 + exp(-2 * alpha * t)) - log(tensor(2.0))\<close>.
\<close>

definition recons_elem :: "real \<Rightarrow> f32 \<Rightarrow> f32" where
  "recons_elem al t =
     fsub (fadd (fmul (r32 al) t) (flog (fadd (Fin 1) (fexp (fmul (r32 (- 2 * al)) t)))))
       (flog (Fin 2))"

text \<open>Lines 161 to 164, for \<open>alpha\<close> other than 0.\<close>

definition recons_loss :: "LogCoshVAE \<Rightarrow> f32 list \<Rightarrow> f32 list \<Rightarrow> f32" where
  "recons_loss self reals fakes =
     fmul (r32 (1 / alpha self)) (fmean (map (recons_elem (alpha self)) (map2 fsub fakes reals)))"

text \<open>Line 166.\<close>

definition kld_loss :: "f32 list list \<Rightarrow> f32 list list \<Rightarrow> f32" where
  "kld_loss mu log_var =
     fmean
       (map2 (\<lambda>m lv. fmul (Fin (- (1 / 2)))
                  (fsum (map2 (\<lambda>x l. fsub (fsub (fadd (Fin 1) l) (fmul x x)) (fexp l)) m lv)))
          mu log_var)"

text \<open>
  Lines 160 to 170. \<open>1.0 / self.alpha\<close> in line 164 is a division of Python floats, which
  raises \<open>ZeroDivisionError\<close> when \<open>alpha\<close> is 0.
\<close>

definition loss ::
  "LogCoshVAE \<Rightarrow> f32 list \<Rightarrow> f32 list \<Rightarrow> f32 list list \<Rightarrow> f32 list list \<Rightarrow> exn + loss_dict" where
  "loss self reals fakes mu log_var =
     (if alpha self = 0 then Inl (OtherError ''ZeroDivisionError'')
      else
        (let r = recons_loss self reals fakes; k = kld_loss mu log_var
         in Inr \<lparr>Total = fadd r (fmul (r32 (beta self * kld_weight self)) k),
                 Reconstruction = r,
                 Kullback_Leibler_Divergence = fneg k\<rparr>))"

section \<open>The training loop: \<open>train\<close>\<close>

subsection \<open>The environment\<close>

text \<open>
  \<open>train\<close> talks to collaborators that are not part of the program: the dataset and
  its loader, the accelerator, the logging sink and \<open>validation.vae_fid\<close>. What they
  answer is a parameter of the model, the \<open>world\<close>, indexed by the attempt (the
  iteration of the outer \<open>while\<close>, counted from 0) and the step \<open>i\<close> of that attempt.
  The loss itself is not computed here: whether it is NaN is an answer of the world.
\<close>

text \<open>
  Where an exception can be raised. In the set-up: \<open>SData\<close> is lines 193 to 217 (before
  \<open>vae, vae_optim = None, None\<close>), \<open>SModel\<close> is the construction of the model, lines 219
  to 226. In a step: the forward pass with the loss (lines 242 to 246), the update (248 to
  250), the two halves of the qualitative probe (264 to 267, 269 to 272) and
  \<open>validation.vae_fid\<close> (276).
\<close>

datatype setup_phase = SData | SModel

datatype phase = PForward | PUpdate | PReconstruct | PGenerate | PFid

record world =
  loader_len :: "nat \<Rightarrow> nat"
  setup_fault :: "nat \<Rightarrow> (setup_phase \<times> exn) option"
  step_fault :: "nat \<Rightarrow> nat \<Rightarrow> (phase \<times> exn) option"
  loss_isnan :: "nat \<Rightarrow> nat \<Rightarrow> bool"
  fid :: "nat \<Rightarrow> nat \<Rightarrow> real"
  mse_loss :: "nat \<Rightarrow> nat \<Rightarrow> real"
  fid_sets_training :: "nat \<Rightarrow> nat \<Rightarrow> bool \<Rightarrow> bool"
  get_rank :: nat

text \<open>
  \<open>loader_len w b\<close> is the number of batches one pass over the \<open>DataLoader\<close> built with
  \<open>batch_size = b\<close> yields; \<open>loss_isnan w a i\<close> is the value of
  \<open>th.isnan(loss).any()\<close>; \<open>fid_sets_training w a i t\<close> is the module's training flag
  after \<open>validation.vae_fid\<close> was called with the flag \<open>t\<close>.
\<close>

definition setup_fault_in :: "world \<Rightarrow> nat \<Rightarrow> setup_phase \<Rightarrow> exn option" where
  "setup_fault_in w a p =
     (case setup_fault w a of
        None \<Rightarrow> None
      | Some (q, e) \<Rightarrow> if q = p then Some e else None)"

definition fault_in :: "world \<Rightarrow> nat \<Rightarrow> nat \<Rightarrow> phase \<Rightarrow> exn option" where
  "fault_in w a i p =
     (case step_fault w a i of
        None \<Rightarrow> None
      | Some (q, e) \<Rightarrow> if q = p then Some e else None)"

record hparams =
  latent_dim :: nat
  learning_rate :: real
  number_filters :: nat
  vae_alpha :: real
  vae_beta :: real
  kl_divergence_weight :: real

subsection \<open>What a run does: events\<close>

text \<open>
  A run is observed through the list of its actions, in the order they completed. The
  actions that run the network carry the module's training flag and whether gradient
  recording was enabled when they ran. \<open>Try\<close>, \<open>Caught\<close> and \<open>Halve\<close> mark the entry
  into the \<open>try\<close> block (with the value of \<open>batch_size\<close>), the entry into the handler
  (with the exception and the value of the variable \<open>i\<close>) and the assignment
  \<open>batch_size = batch_size / 2\<close> (with the new value). Every event is stamped with the
  attempt and, inside the \<open>for\<close> loop, the step.
\<close>

datatype action =
    PrintParams hparams
  | Try real
  | Loader nat
  | Model "nat list"
  | ModeTrain
  | Forward bool bool
  | Loss bool
  | Update bool bool
  | Telemetry
  | ModeEval
  | Reconstruct bool bool
  | Generate bool bool
  | Fid bool bool
  | Score real
  | Append real
  | Print string
  | PrintHalving real
  | Caught exn "nat option"
  | Halve real
  | Release

type_synonym event = "nat \<times> nat option \<times> action"

subsection \<open>\<open>sample_data\<close>\<close>

text \<open>
  The generator \<open>sample_data\<close> loops over the loader forever. Its state is the position
  in the current pass; \<open>sample_data n pos\<close> is one \<open>next(loader)\<close> on a loader of \<open>n\<close>
  batches per pass and returns the position after the batch it yields. On a loader that
  yields no batch the \<open>while True\<close> never reaches a \<open>yield\<close>: \<open>None\<close>.
\<close>

partial_function (option) sample_data :: "nat \<Rightarrow> nat \<Rightarrow> nat option" where
  "sample_data n pos = (if pos < n then Some (Suc pos) else sample_data n 0)"

subsection \<open>One step of the \<open>for\<close> loop\<close>

definition num_iters :: nat where
  "num_iters = 20000"

definition qual_due :: "nat \<Rightarrow> bool" where
  "qual_due i \<longleftrightarrow> i mod nat \<lfloor>real num_iters / 20\<rfloor> = 0 \<or> i + 1 = num_iters"

definition quant_due :: "nat \<Rightarrow> bool" where
  "quant_due i \<longleftrightarrow> i mod nat \<lfloor>real num_iters / 10\<rfloor> = 0 \<or> i + 1 = num_iters"

definition past_half :: "nat \<Rightarrow> bool" where
  "past_half i \<longleftrightarrow> real num_iters / 2 \<le> real i"

definition score :: "world \<Rightarrow> nat \<Rightarrow> nat \<Rightarrow> real" where
  "score w a i = fid w a i + mse_loss w a i * 5000"

record loop_state =
  training :: bool
  grad :: bool
  scores :: "real list"
  pos :: nat

text \<open>
  The two settings the network runs under are part of the state: the module's training
  flag, which \<open>vae.train()\<close> sets and \<open>vae.eval()\<close> clears, and whether gradients are
  recorded, which \<open>with th.no_grad()\<close> turns off for its block. Every action that runs the
  network reads both from the state it runs in.
\<close>

definition vae_train :: "loop_state \<Rightarrow> loop_state" where
  "vae_train st = st\<lparr>training := True\<rparr>"

definition vae_eval :: "loop_state \<Rightarrow> loop_state" where
  "vae_eval st = st\<lparr>training := False\<rparr>"

definition no_grad :: "loop_state \<Rightarrow> loop_state" where
  "no_grad st = st\<lparr>grad := False\<rparr>"

text \<open>
  Lines 260 to 272. The \<open>with\<close> block gives the setting of gradient recording back when it
  is left, also by an exception; the training flag stays as \<open>vae.eval()\<close> left it, since
  nothing in the block sets it again. The result is the exception raised, or the state
  after the block.
\<close>

definition qual_probe ::
  "world \<Rightarrow> nat \<Rightarrow> nat \<Rightarrow> loop_state \<Rightarrow> event list \<times> (exn + loop_state)" where
  "qual_probe w a i st =
     (if qual_due i then
        (let inner = vae_eval (no_grad st);
             rec = (a, Some i, Reconstruct (training inner) (grad inner));
             gen = (a, Some i, Generate (training inner) (grad inner))
         in case fault_in w a i PReconstruct of
              Some e \<Rightarrow> ([(a, Some i, ModeEval)], Inl e)
            | None \<Rightarrow>
           (case fault_in w a i PGenerate of
              Some e \<Rightarrow> ([(a, Some i, ModeEval), rec], Inl e)
            | None \<Rightarrow> ([(a, Some i, ModeEval), rec, gen], Inr (inner\<lparr>grad := grad st\<rparr>))))
      else ([], Inr st))"

text \<open>
  Lines 274 to 284. \<open>train\<close> does not touch the training flag here: \<open>vae_fid\<close> is entered
  with the flag as it is, and leaves it as the world says. \<open>pbar\<close> is the \<open>tqdm\<close> bar only
  for rank 0; otherwise it is the \<open>range\<close> object, which has no \<open>set_description\<close>. The
  result is the exception raised, or the state after line 284.
\<close>

definition quant_probe ::
  "world \<Rightarrow> nat \<Rightarrow> nat \<Rightarrow> loop_state \<Rightarrow> event list \<times> (exn + loop_state)" where
  "quant_probe w a i st =
     (if quant_due i then
        (let inner = no_grad st
         in case fault_in w a i PFid of
              Some e \<Rightarrow> ([], Inl e)
            | None \<Rightarrow>
                (let evs = [(a, Some i, Fid (training inner) (grad inner)),
                            (a, Some i, Score (score w a i))];
                     left = inner\<lparr>training := fid_sets_training w a i (training inner),
                                  grad := grad st\<rparr>
                 in if get_rank w \<noteq> 0 then (evs, Inl (OtherError ''AttributeError''))
                    else if past_half i
                    then (evs @ [(a, Some i, Append (score w a i))],
                          Inr (left\<lparr>scores := scores left @ [score w a i]\<rparr>))
                    else (evs, Inr left)))
      else ([], Inr st))"

datatype step_result = Next loop_state | NanExit | Raise exn

text \<open>Lines 240 to 289: the body of the \<open>for\<close> loop at step \<open>i\<close>, on a loader of \<open>n\<close> batches.\<close>

definition train_step ::
  "world \<Rightarrow> nat \<Rightarrow> nat \<Rightarrow> nat \<Rightarrow> loop_state \<Rightarrow> (event list \<times> step_result) option" where
  "train_step w a n i st =
     (let st1 = vae_train st
      in case sample_data n (pos st1) of
           None \<Rightarrow> None
         | Some p \<Rightarrow>
             Some
              (let st2 = st1\<lparr>pos := p\<rparr>;
                   fwd = (a, Some i, Forward (training st2) (grad st2));
                   los = (a, Some i, Loss (loss_isnan w a i));
                   upd = (a, Some i, Update (training st2) (grad st2))
               in case fault_in w a i PForward of
                    Some e \<Rightarrow> ([(a, Some i, ModeTrain)], Raise e)
                  | None \<Rightarrow>
                 (case fault_in w a i PUpdate of
                    Some e \<Rightarrow> ([(a, Some i, ModeTrain), fwd, los], Raise e)
                  | None \<Rightarrow>
                 (let body = [(a, Some i, ModeTrain), fwd, los, upd, (a, Some i, Telemetry)]
                  in case qual_probe w a i st2 of
                       (qs, Inl e) \<Rightarrow> (body @ qs, Raise e)
                     | (qs, Inr st3) \<Rightarrow>
                    (case quant_probe w a i st3 of
                       (vs, Inl e) \<Rightarrow> (body @ qs @ vs, Raise e)
                     | (vs, Inr st4) \<Rightarrow>
                         if loss_isnan w a i
                         then (body @ qs @ vs @
                                 [(a, Some i, Print ''NaN losses, exiting...''),
                                  (a, Some i, Score 27000)], NanExit)
                         else (body @ qs @ vs, Next st4))))))"

subsection \<open>The \<open>for\<close> loop\<close>

datatype loop_result = Done loop_state | Nan nat | Exc exn nat

text \<open>
  \<open>for i in pbar\<close>, over the list of the indices still to run. \<open>Nan i\<close> and \<open>Exc e i\<close>
  leave the loop at step \<open>i\<close>, which is then the value of the variable \<open>i\<close>.
\<close>

fun run_steps ::
  "world \<Rightarrow> nat \<Rightarrow> nat \<Rightarrow> nat list \<Rightarrow> loop_state \<Rightarrow> (event list \<times> loop_result) option" where
  "run_steps w a n [] st = Some ([], Done st)"
| "run_steps w a n (i # rest) st =
     (case train_step w a n i st of
        None \<Rightarrow> None
      | Some (evs, NanExit) \<Rightarrow> Some (evs, Nan i)
      | Some (evs, Raise e) \<Rightarrow> Some (evs, Exc e i)
      | Some (evs, Next st') \<Rightarrow>
          (case run_steps w a n rest st' of
             None \<Rightarrow> None
           | Some (evs', r) \<Rightarrow> Some (evs @ evs', r)))"

subsection \<open>The final score\<close>

text \<open>Lines 291 to 293; \<open>zip\<close> stops at the shorter list.\<close>

definition sqrt_weights :: "nat \<Rightarrow> real list" where
  "sqrt_weights n = map (\<lambda>k. sqrt (real k)) [1..<n + 1]"

definition normalized :: "real list \<Rightarrow> real list" where
  "normalized ws = map (\<lambda>x. x / sum_list ws) ws"

definition weighted_scores :: "real list \<Rightarrow> real" where
  "weighted_scores sc =
     sum_list (map (\<lambda>(x, v). x * v) (zip (normalized (sqrt_weights (length sc))) sc))"

subsection \<open>One attempt: the body of the \<open>try\<close> block\<close>

text \<open>
  The local variables \<open>vae\<close> and \<open>vae_optim\<close> are unbound until line 218 binds them to
  \<open>None\<close>; the handler deletes them again when they hold objects.
\<close>

datatype binding = Unbound | BoundNone | Built

datatype attempt_result = Completed | NanAborted | Raised exn "nat option" binding

definition hidden_dims :: "hparams \<Rightarrow> nat list" where
  "hidden_dims hp =
     map (\<lambda>k. min (number_filters hp * 2 ^ k) (latent_dim hp)) [0..<5] @ [latent_dim hp]"

text \<open>
  Lines 193 to 295. \<open>Raised e j v\<close>: the exception \<open>e\<close> left the block, \<open>j\<close> is the value
  the \<open>for\<close> loop last gave to \<open>i\<close> (\<open>None\<close> when the loop was not entered, so that \<open>i\<close>
  keeps what it held), \<open>v\<close> the binding of \<open>vae\<close>. \<open>None\<close>: the attempt does not return.
\<close>

definition attempt ::
  "hparams \<Rightarrow> world \<Rightarrow> nat \<Rightarrow> real \<Rightarrow> binding \<Rightarrow> (event list \<times> attempt_result) option" where
  "attempt hp w a batch_size vae =
     (case setup_fault_in w a SData of
        Some e \<Rightarrow> Some ([], Raised e None vae)
      | None \<Rightarrow>
     (case sample_data (loader_len w (nat \<lfloor>batch_size\<rfloor>)) 0 of
        None \<Rightarrow> None
      | Some p \<Rightarrow>
     (case setup_fault_in w a SModel of
        Some e \<Rightarrow> Some ([(a, None, Loader (nat \<lfloor>batch_size\<rfloor>))], Raised e None BoundNone)
      | None \<Rightarrow>
     (let pre = [(a, None, Loader (nat \<lfloor>batch_size\<rfloor>)), (a, None, Model (hidden_dims hp))]
      in case run_steps w a (loader_len w (nat \<lfloor>batch_size\<rfloor>)) [0..<num_iters]
                \<lparr>training = True, grad = True, scores = [], pos = p\<rparr> of
           None \<Rightarrow> None
         | Some (evs, Done st) \<Rightarrow>
             Some (pre @ evs @ [(a, None, Score (weighted_scores (scores st)))], Completed)
         | Some (evs, Nan i) \<Rightarrow> Some (pre @ evs, NanAborted)
         | Some (evs, Exc e i) \<Rightarrow> Some (pre @ evs, Raised e (Some i) Built)))))"

subsection \<open>The handler and the outer loop\<close>

datatype outcome =
    Success
  | NanAbort
  | CutoffReturn
  | OomFatal
  | OtherFatal
  | Propagated exn
  | LoopExit

text \<open>Python's \<open>pat in s\<close> on strings.\<close>

fun str_contains :: "string \<Rightarrow> string \<Rightarrow> bool" where
  "str_contains pat [] = (pat = [])"
| "str_contains pat (c # cs) = (prefix pat (c # cs) \<or> str_contains pat cs)"

datatype handled = Return "event list" outcome | Retry "event list" binding

text \<open>
  Lines 297 to 320, for a \<open>RuntimeError\<close> with message \<open>m\<close>: \<open>Return\<close> leaves \<open>train\<close>,
  \<open>Retry\<close> goes round the \<open>while\<close> again with the halved batch size. Reading an unbound
  \<open>vae\<close> raises \<open>UnboundLocalError\<close> out of the handler.
\<close>

definition handle_runtime_error ::
  "nat \<Rightarrow> string \<Rightarrow> nat option \<Rightarrow> real \<Rightarrow> binding \<Rightarrow> handled" where
  "handle_runtime_error a m i batch_size vae =
     (if (case i of None \<Rightarrow> False | Some k \<Rightarrow> 10000 < k) then Return [] CutoffReturn
      else if str_contains ''CUDA out of memory'' m then
        (if batch_size / 2 < 1
         then Return
                [(a, None, Halve (batch_size / 2)),
                 (a, None, Print ''This configuration does not fit into memory, exiting...''),
                 (a, None, Score 27000)] OomFatal
         else
           (case vae of
              Unbound \<Rightarrow>
                Return [(a, None, Halve (batch_size / 2)), (a, None, PrintHalving (batch_size / 2))]
                  (Propagated (OtherError ''UnboundLocalError''))
            | BoundNone \<Rightarrow>
                Retry [(a, None, Halve (batch_size / 2)), (a, None, PrintHalving (batch_size / 2)),
                       (a, None, Release)] BoundNone
            | Built \<Rightarrow>
                Retry [(a, None, Halve (batch_size / 2)), (a, None, PrintHalving (batch_size / 2)),
                       (a, None, Release)] Unbound))
      else Return [(a, None, Print m)] OtherFatal)"

text \<open>
  Lines 191 to 320: the \<open>while\<close> loop, in its iteration \<open>a\<close>, with the values of \<open>i\<close>,
  \<open>batch_size\<close> and the binding of \<open>vae\<close>. An exception that is no \<open>RuntimeError\<close> is
  not caught.
\<close>

function train_loop ::
  "hparams \<Rightarrow> world \<Rightarrow> nat \<Rightarrow> nat option \<Rightarrow> real \<Rightarrow> binding \<Rightarrow> (event list \<times> outcome) option" where
  "train_loop hp w a i batch_size vae =
     (if 1 \<le> batch_size then
        (case attempt hp w a batch_size vae of
           None \<Rightarrow> None
         | Some (evs, Completed) \<Rightarrow> Some ((a, None, Try batch_size) # evs, Success)
         | Some (evs, NanAborted) \<Rightarrow> Some ((a, None, Try batch_size) # evs, NanAbort)
         | Some (evs, Raised (OtherError m) j vae') \<Rightarrow>
             Some ((a, None, Try batch_size) # evs, Propagated (OtherError m))
         | Some (evs, Raised (RuntimeError m) j vae') \<Rightarrow>
             (let i' = (case j of None \<Rightarrow> i | Some k \<Rightarrow> Some k);
                  caught = (a, None, Caught (RuntimeError m) i')
              in case handle_runtime_error a m i' batch_size vae' of
                   Return hs out \<Rightarrow> Some ((a, None, Try batch_size) # evs @ caught # hs, out)
                 | Retry hs vae'' \<Rightarrow>
                     (case train_loop hp w (Suc a) i' (batch_size / 2) vae'' of
                        None \<Rightarrow> None
                      | Some (tr, out) \<Rightarrow>
                          Some ((a, None, Try batch_size) # evs @ caught # hs @ tr, out))))
      else Some ([], LoopExit))"
  by pat_completeness auto
termination
proof (relation "measure (\<lambda>(hp, w, a, i, b, v). nat \<lfloor>b\<rfloor>)")
  show "wf (measure (\<lambda>(hp, w, a, i, b, v). nat \<lfloor>b\<rfloor>))"
    by simp
next
  fix hp :: hparams and w :: world and a :: nat and i :: "nat option" and batch_size :: real
    and vae :: binding and m :: string and i' :: "nat option" and vae' vae'' :: binding
    and hs :: "event list"
  assume retry: "handle_runtime_error a m i' batch_size vae' = Retry hs vae''"
  have two: "2 \<le> batch_size"
    using retry by (simp add: handle_runtime_error_def split: if_splits)
  then have "batch_size / 2 \<le> batch_size - 1"
    by simp
  then have "\<lfloor>batch_size / 2\<rfloor> \<le> \<lfloor>batch_size - 1\<rfloor>"
    by (rule floor_mono)
  moreover have "0 < \<lfloor>batch_size\<rfloor>"
    using two by simp
  ultimately show "((hp, w, Suc a, i', batch_size / 2, vae''), (hp, w, a, i, batch_size, vae))
      \<in> measure (\<lambda>(hp, w, a, i, b, v). nat \<lfloor>b\<rfloor>)"
    by simp
qed

declare train_loop.simps [simp del]

text \<open>Lines 179 to 191: \<open>train\<close> prints its arguments and enters the loop.\<close>

definition train :: "hparams \<Rightarrow> world \<Rightarrow> (event list \<times> outcome) option" where
  "train hp w =
     (case train_loop hp w 0 None 512 Unbound of
        None \<Rightarrow> None
      | Some (tr, out) \<Rightarrow> Some ((0, None, PrintParams hp) # tr, out))"

section \<open>Observing a run\<close>

text \<open>
  What \<open>train\<close> returned: its events (none when it does not return) and the place where it
  returned.
\<close>

definition run_trace :: "(event list \<times> outcome) option \<Rightarrow> event list" where
  "run_trace r = (case r of None \<Rightarrow> [] | Some (tr, out) \<Rightarrow> tr)"

definition run_outcome :: "(event list \<times> outcome) option \<Rightarrow> outcome option" where
  "run_outcome r = map_option snd r"

text \<open>The actions of a trace, without their stamps.\<close>

definition actions :: "event list \<Rightarrow> action list" where
  "actions tr = map (\<lambda>e. snd (snd e)) tr"

text \<open>
  The attempts of a trace, in its order: the stamp of each entry into the \<open>try\<close> block and
  the batch size it was entered with.
\<close>

definition tried :: "event list \<Rightarrow> (nat \<times> real) list" where
  "tried tr =
     List.map_filter (\<lambda>e. case snd (snd e) of Try x \<Rightarrow> Some (fst e, x) | _ \<Rightarrow> None) tr"

text \<open>The steps attempt \<open>a\<close> began (each step opens with \<open>vae.train()\<close>), in order.\<close>

definition steps_begun :: "nat \<Rightarrow> event list \<Rightarrow> nat list" where
  "steps_begun a tr =
     List.map_filter
       (\<lambda>e. case e of
              (a', Some i, ModeTrain) \<Rightarrow> if a' = a then Some i else None
            | _ \<Rightarrow> None) tr"

text \<open>
  The samples attempt \<open>a\<close> appended to \<open>scores\<close>, each with its step, in the order of the
  trace.
\<close>

definition appended :: "nat \<Rightarrow> event list \<Rightarrow> (nat \<times> real) list" where
  "appended a tr =
     List.map_filter
       (\<lambda>e. case e of
              (a', Some i, Append x) \<Rightarrow> if a' = a then Some (i, x) else None
            | _ \<Rightarrow> None) tr"

section \<open>The events of an undisturbed step\<close>

text \<open>
  The events of step \<open>i\<close> when nothing is raised in it, up to the test for NaN: the update,
  the telemetry and the probes that are due. The lemmas below show that a step that runs
  to its end produces exactly these, and a step that raises a prefix of them.
\<close>

definition step_events :: "world \<Rightarrow> nat \<Rightarrow> nat \<Rightarrow> bool \<Rightarrow> event list" where
  "step_events w a i g =
     [(a, Some i, ModeTrain), (a, Some i, Forward True g), (a, Some i, Loss (loss_isnan w a i)),
      (a, Some i, Update True g), (a, Some i, Telemetry)] @
     (if qual_due i
      then [(a, Some i, ModeEval), (a, Some i, Reconstruct False False),
            (a, Some i, Generate False False)]
      else []) @
     (if quant_due i
      then [(a, Some i, Fid False False), (a, Some i, Score (score w a i))] @
           (if past_half i then [(a, Some i, Append (score w a i))] else [])
      else [])"

definition steps_events :: "world \<Rightarrow> nat \<Rightarrow> bool \<Rightarrow> nat list \<Rightarrow> event list" where
  "steps_events w a g xs = concat (map (\<lambda>i. step_events w a i g) xs)"

text \<open>What the exit on a NaN loss adds (lines 287 and 288), and the events of the set-up.\<close>

definition nan_exit_events :: "nat \<Rightarrow> nat \<Rightarrow> event list" where
  "nan_exit_events a i = [(a, Some i, Print ''NaN losses, exiting...''), (a, Some i, Score 27000)]"

definition setup_events :: "hparams \<Rightarrow> nat \<Rightarrow> real \<Rightarrow> event list" where
  "setup_events hp a b = [(a, None, Loader (nat \<lfloor>b\<rfloor>)), (a, None, Model (hidden_dims hp))]"

text \<open>The steps, among \<open>xs\<close>, at which a sample is appended.\<close>

definition sampled :: "nat list \<Rightarrow> nat list" where
  "sampled xs = filter (\<lambda>i. quant_due i \<and> past_half i) xs"

text \<open>
  What holds of every event of the body of the \<open>try\<close> block in attempt \<open>a\<close>: its stamp, the
  modes of the actions that run the network, and that it is no event of the outer loop.
\<close>

definition plain_event :: "nat \<Rightarrow> event \<Rightarrow> bool" where
  "plain_event a e \<longleftrightarrow>
     fst e = a \<and>
     (case fst (snd e) of None \<Rightarrow> True | Some i \<Rightarrow> i < num_iters) \<and>
     (case snd (snd e) of
        Forward t g \<Rightarrow> t \<and> g
      | Update t g \<Rightarrow> t \<and> g
      | Reconstruct t g \<Rightarrow> \<not> t \<and> \<not> g
      | Generate t g \<Rightarrow> \<not> t \<and> \<not> g
      | Fid t g \<Rightarrow> \<not> t \<and> \<not> g
      | PrintParams _ \<Rightarrow> False
      | Try _ \<Rightarrow> False
      | PrintHalving _ \<Rightarrow> False
      | Caught _ _ \<Rightarrow> False
      | Halve _ \<Rightarrow> False
      | Release \<Rightarrow> False
      | _ \<Rightarrow> True)"

section \<open>Concrete inputs\<close>

text \<open>
  The inputs at which the theorems below are instantiated: a model with the constructor's
  default \<open>alpha\<close>, the hyperparameters of the command line's defaults, and a world in which
  nothing fails (a dataset of 512 images, all scores 0, rank 0, \<open>vae_fid\<close> leaving the
  training flag as it finds it).
\<close>

definition vae_example :: LogCoshVAE where
  "vae_example = \<lparr>alpha = 10, beta = 1, kld_weight = 1\<rparr>"

text \<open>A model with \<open>alpha = 100\<close>, what \<open>--vae_alpha 2\<close> gives.\<close>

definition sharp_vae :: LogCoshVAE where
  "sharp_vae = \<lparr>alpha = 100, beta = 1, kld_weight = 1\<rparr>"

definition hp_example :: hparams where
  "hp_example =
     \<lparr>latent_dim = 256, learning_rate = 1 / 1000, number_filters = 16, vae_alpha = 1 / 100,
      vae_beta = 1 / 1000, kl_divergence_weight = 1 / 1000\<rparr>"

definition quiet_world :: world where
  "quiet_world =
     \<lparr>loader_len = (\<lambda>b. 512 div b), setup_fault = (\<lambda>a. None), step_fault = (\<lambda>a i. None),
      loss_isnan = (\<lambda>a i. False), fid = (\<lambda>a i. 0), mse_loss = (\<lambda>a i. 0),
      fid_sets_training = (\<lambda>a i t. t), get_rank = 0\<rparr>"

text \<open>Memory runs out in the update of step 15000 of the first attempt.\<close>

definition late_oom_world :: world where
  "late_oom_world =
     quiet_world
       \<lparr>step_fault := (\<lambda>a i. if a = 0 \<and> i = 15000
                            then Some (PUpdate, RuntimeError ''CUDA out of memory'') else None)\<rparr>"

text \<open>Memory runs out in every attempt, when the model is moved to the device.\<close>

definition all_oom_world :: world where
  "all_oom_world =
     quiet_world\<lparr>setup_fault := (\<lambda>a. Some (SModel, RuntimeError ''CUDA out of memory''))\<rparr>"

text \<open>A dataset of 100 images: with \<open>drop_last\<close>, no batch of 512.\<close>

definition small_dataset_world :: world where
  "small_dataset_world = quiet_world\<lparr>loader_len := (\<lambda>b. 100 div b)\<rparr>"

text \<open>The loss of step 10000 of the first attempt is NaN.\<close>

definition nan_world :: world where
  "nan_world = quiet_world\<lparr>loss_isnan := (\<lambda>a i. a = 0 \<and> i = 10000)\<rparr>"

text \<open>
  The loss of step 0 of the first attempt is NaN and \<open>vae_fid\<close> runs out of memory in that
  step; in the second attempt the forward pass of step 1 fails with another
  \<open>RuntimeError\<close>.
\<close>

definition nan_then_oom_world :: world where
  "nan_then_oom_world =
     quiet_world
       \<lparr>step_fault :=
          (\<lambda>a i. if a = 0 \<and> i = 0 then Some (PFid, RuntimeError ''CUDA out of memory'')
                 else if a = 1 \<and> i = 1
                 then Some (PForward, RuntimeError ''unspecified launch failure'')
                 else None),
        loss_isnan := (\<lambda>a i. a = 0 \<and> i = 0)\<rparr>"

section \<open>Rounding\<close>

text \<open>
  The rounded value is within half a spacing of the exact one; numbers of the format
  round to themselves; what is below half the smallest number rounds to 0.
\<close>

lemma round_even_int: "round_even (of_int k) = k"
  by (simp add: round_even_def)

lemma round_even_close: "\<bar>of_int (round_even y) - y\<bar> \<le> 1 / 2"
proof -
  have "of_int \<lfloor>y\<rfloor> \<le> y" "y < of_int \<lfloor>y\<rfloor> + 1"
    by linarith+
  then show ?thesis
    by (auto simp: round_even_def Let_def)
qed

lemma ulp_pos: "0 < ulp x"
  by (simp add: ulp_def)

lemma ulp_le:
  assumes "x \<noteq> 0"
  shows "ulp x \<le> \<bar>x\<bar> / 2 ^ 23 + 1 / 2 ^ 149"
proof (cases "- 126 \<le> \<lfloor>log 2 \<bar>x\<bar>\<rfloor>")
  case True
  have "ulp x = 2 powr (of_int \<lfloor>log 2 \<bar>x\<bar>\<rfloor> - 23)"
    unfolding ulp_def max_absorb1 [OF True] by (simp only: of_int_diff of_int_numeral)
  also have "\<dots> = 2 powr of_int \<lfloor>log 2 \<bar>x\<bar>\<rfloor> / 2 ^ 23"
    by (simp add: powr_diff)
  also have "\<dots> \<le> 2 powr log 2 \<bar>x\<bar> / 2 ^ 23"
    by (intro divide_right_mono) (simp_all add: powr_le_cancel_iff)
  also have "\<dots> = \<bar>x\<bar> / 2 ^ 23"
    using assms by simp
  finally show ?thesis
    by simp
next
  case False
  then have "max \<lfloor>log 2 \<bar>x\<bar>\<rfloor> (- 126) = - 126"
    by (intro max_absorb2) linarith
  then have "ulp x = 2 powr (- 149)"
    unfolding ulp_def by simp
  also have "\<dots> = 1 / 2 ^ 149"
    by (simp add: powr_minus divide_simps)
  finally show ?thesis
    by simp
qed

lemma rnd_close: "\<bar>rnd x - x\<bar> \<le> \<bar>x\<bar> / 2 ^ 24 + 1 / 2 ^ 150"
proof (cases "x = 0")
  case True
  then show ?thesis by (simp add: rnd_def)
next
  case False
  have "rnd x - x = (of_int (round_even (x / ulp x)) - x / ulp x) * ulp x"
    using False ulp_pos [of x] by (simp add: rnd_def algebra_simps)
  then have "\<bar>rnd x - x\<bar> = \<bar>of_int (round_even (x / ulp x)) - x / ulp x\<bar> * ulp x"
    using ulp_pos [of x] by (simp add: abs_mult)
  also have "\<dots> \<le> 1 / 2 * ulp x"
    using round_even_close [of "x / ulp x"] ulp_pos [of x] by (intro mult_right_mono) simp_all
  also have "\<dots> \<le> 1 / 2 * (\<bar>x\<bar> / 2 ^ 23 + 1 / 2 ^ 149)"
    using ulp_le [OF False] by simp
  also have "\<dots> = \<bar>x\<bar> / 2 ^ 24 + 1 / 2 ^ 150"
    by simp
  finally show ?thesis .
qed

lemma r32_fin: "\<bar>x\<bar> < 2 ^ 128 - 2 ^ 103 \<Longrightarrow> r32 x = Fin (rnd x)"
  by (auto simp: r32_def)

lemma ulp_eq:
  assumes "2 ^ n \<le> \<bar>x\<bar>" and "\<bar>x\<bar> < 2 ^ Suc n"
  shows "ulp x = 2 ^ n / 2 ^ 23"
proof -
  have pos: "0 < \<bar>x\<bar>"
    using assms(1) by (smt (verit) zero_less_power)
  have "\<lfloor>log 2 \<bar>x\<bar>\<rfloor> = int n"
  proof (rule floor_unique)
    show "of_int (int n) \<le> log 2 \<bar>x\<bar>"
      using assms(1) pos by (simp add: le_log_iff powr_realpow)
    show "log 2 \<bar>x\<bar> < of_int (int n) + 1"
      using assms(2) pos by (simp add: log_less_iff powr_add powr_realpow)
  qed
  then have "ulp x = 2 powr (of_int (int n) - 23)"
    unfolding ulp_def by (simp add: max_def)
  also have "\<dots> = 2 ^ n / 2 ^ 23"
    by (simp add: powr_diff powr_realpow)
  finally show ?thesis .
qed

lemma rnd_exact:
  assumes "ulp x = u" and "x / u = of_int k"
  shows "rnd x = x"
proof (cases "x = 0")
  case True
  then show ?thesis by (simp add: rnd_def)
next
  case False
  have "0 < u"
    using assms(1) ulp_pos [of x] by simp
  then have "x = of_int k * u"
    using assms(2) by (simp add: field_simps)
  then show ?thesis
    using False assms by (simp add: rnd_def round_even_int)
qed

lemma rnd_1: "rnd 1 = 1"
  by (rule rnd_exact [OF ulp_eq [of 0], where k = "2 ^ 23"]) simp_all

lemma rnd_100: "rnd 100 = 100"
  by (rule rnd_exact [OF ulp_eq [of 6], where k = "100 * 2 ^ 17"]) simp_all

lemma rnd_200: "rnd 200 = 200"
  by (rule rnd_exact [OF ulp_eq [of 7], where k = "200 * 2 ^ 16"]) simp_all


lemma r32_0: "r32 0 = Fin 0"
  by (simp add: r32_def rnd_def)

lemma r32_1: "r32 1 = Fin 1"
  by (simp add: r32_fin rnd_1)

lemma rnd_m1: "rnd (- 1) = - 1"
  by (rule rnd_exact [OF ulp_eq [of 0], where k = "- (2 ^ 23)"]) simp_all

lemma rnd_m100: "rnd (- 100) = - 100"
  by (rule rnd_exact [OF ulp_eq [of 6], where k = "- (100 * 2 ^ 17)"]) simp_all

lemma rnd_m200: "rnd (- 200) = - 200"
  by (rule rnd_exact [OF ulp_eq [of 7], where k = "- (200 * 2 ^ 16)"]) simp_all

lemma rnd_underflow:
  assumes "0 \<le> x" and "x < 1 / 2 ^ 150"
  shows "rnd x = 0"
proof (cases "x = 0")
  case True
  then show ?thesis by (simp add: rnd_def)
next
  case False
  with assms have pos: "0 < x"
    by simp
  have "x < 2 powr (- 126)"
  proof -
    have "(1::real) / 2 ^ 150 \<le> 1 / 2 ^ 126"
      by (intro divide_left_mono power_increasing) simp_all
    also have "\<dots> = 2 powr (- 126)"
      by (simp add: powr_minus divide_simps)
    finally show ?thesis
      using assms(2) by simp
  qed
  then have "log 2 x < - 126"
    using pos by (simp add: log_less_iff)
  then have "\<lfloor>log 2 \<bar>x\<bar>\<rfloor> \<le> - 126"
    using pos by (simp add: floor_le_iff)
  then have "max \<lfloor>log 2 \<bar>x\<bar>\<rfloor> (- 126) = - 126"
    by (rule max_absorb2)
  then have "ulp x = 2 powr (- 149)"
    unfolding ulp_def by simp
  also have "\<dots> = 1 / 2 ^ 149"
    by (simp add: powr_minus divide_simps)
  finally have u: "ulp x = 1 / 2 ^ 149" .
  have "x / ulp x = x * 2 ^ 149"
    by (simp add: u)
  also have "\<dots> < 1 / 2 ^ 150 * 2 ^ 149"
    using assms(2) by (intro mult_strict_right_mono) simp_all
  also have "\<dots> = 1 / 2"
    by simp
  finally have lt: "x / ulp x < 1 / 2" .
  have ge: "0 \<le> x / ulp x"
    using pos ulp_pos [of x] by simp
  have fl: "\<lfloor>x / ulp x\<rfloor> = 0"
  proof (rule floor_unique)
    show "of_int 0 \<le> x / ulp x"
      using ge by simp
    show "x / ulp x < of_int 0 + 1"
      using lt by linarith
  qed
  have "round_even (x / ulp x) = 0"
    using lt by (simp add: round_even_def fl)
  then show ?thesis
    by (simp add: rnd_def)
qed

text \<open>\<open>exp 200\<close> is beyond the format, and \<open>exp (- 200)\<close> below it.\<close>

lemma exp_200_big: "(2::real) ^ 200 \<le> exp 200"
proof -
  have "(2::real) \<le> exp 1"
    using exp_ge_add_one_self [of 1] by simp
  then have "(2::real) ^ 200 \<le> exp 1 ^ 200"
    by (intro power_mono) simp_all
  also have "\<dots> = exp 200"
    using exp_of_nat_mult [of 200 "1::real"] by simp
  finally show ?thesis .
qed

lemma fexp_200: "fexp (Fin 200) = PInf"
proof -
  have "(2::real) ^ 128 - 2 ^ 103 \<le> 2 ^ 200"
    by simp
  then have "(2::real) ^ 128 - 2 ^ 103 \<le> exp 200"
    using exp_200_big by (rule order_trans)
  then show ?thesis
    by (simp add: r32_def)
qed

lemma fexp_m200: "fexp (Fin (- 200)) = Fin 0"
proof -
  have "exp (- 200 :: real) = 1 / exp 200"
    by (simp add: exp_minus divide_simps)
  also have "\<dots> \<le> 1 / 2 ^ 200"
    using exp_200_big by (intro divide_left_mono) simp_all
  also have "\<dots> < 1 / 2 ^ 150"
    by simp
  finally have small: "exp (- 200 :: real) < 1 / 2 ^ 150" .
  then have "rnd (exp (- 200)) = 0"
    by (intro rnd_underflow) simp_all
  moreover have "\<bar>exp (- 200 :: real)\<bar> < 2 ^ 128 - 2 ^ 103"
    using small by simp
  ultimately show ?thesis
    by (simp add: r32_fin)
qed

section \<open>The objective at \<open>alpha = 100\<close> and \<open>t = 1\<close>, \<open>t = -1\<close>\<close>

lemma ln_2_bounds: "1 / 2 \<le> ln (2::real)" "ln (2::real) \<le> 1"
proof -
  have "exp (1 / 2 :: real) \<le> 1 + 1 / 2 + (1 / 2)\<^sup>2"
    by (rule exp_bound) simp_all
  also have "\<dots> \<le> 2"
    by (simp add: power2_eq_square)
  finally have "exp (1 / 2 :: real) \<le> 2" .
  then have "ln (exp (1 / 2 :: real)) \<le> ln 2"
    by (subst ln_le_cancel_iff) simp_all
  then show "1 / 2 \<le> ln (2::real)"
    by simp
  show "ln (2::real) \<le> 1"
    using ln_2_less_1 by simp
qed

lemma flog_2: "\<exists>y. flog (Fin 2) = Fin y \<and> 49 / 100 \<le> y \<and> y \<le> 101 / 100"
proof -
  note lo = ln_2_bounds(1) and hi = ln_2_bounds(2)
  from lo hi have "\<bar>ln (2::real)\<bar> < 2 ^ 128 - 2 ^ 103"
    by simp
  then have eq: "flog (Fin 2) = Fin (rnd (ln 2))"
    by (simp add: r32_fin)
  have "\<bar>rnd (ln 2) - ln 2\<bar> \<le> \<bar>ln (2::real)\<bar> / 2 ^ 24 + 1 / 2 ^ 150"
    by (rule rnd_close)
  also have "\<dots> \<le> 1 / 2 ^ 24 + 1 / 2 ^ 150"
    using lo hi by (simp add: divide_simps)
  also have "\<dots> \<le> 1 / 1000"
    by simp
  finally have "\<bar>rnd (ln 2) - ln 2\<bar> \<le> 1 / 1000" .
  with lo hi have "49 / 100 \<le> rnd (ln 2) \<and> rnd (ln 2) \<le> 101 / 100"
    by linarith
  with eq show ?thesis
    by blast
qed

lemma recons_elem_overflow: "recons_elem 100 (Fin (- 1)) = PInf"
proof -
  have a: "fmul (r32 100) (Fin (- 1)) = Fin (- 100)"
    by (simp add: r32_fin rnd_100 rnd_m100)
  have b: "fmul (r32 (- 2 * 100)) (Fin (- 1)) = Fin 200"
    by (simp add: r32_fin rnd_200 rnd_m200)
  obtain y where y: "flog (Fin 2) = Fin y"
    using flog_2 by blast
  show ?thesis
    unfolding recons_elem_def a b fexp_200 y by (simp add: fsub_def)
qed


lemma r32_near:
  assumes "\<bar>x\<bar> \<le> 1000"
  shows "\<exists>y. r32 x = Fin y \<and> \<bar>y - x\<bar> \<le> \<bar>x\<bar> / 2 ^ 24 + 1 / 2 ^ 150"
proof -
  from assms have "\<bar>x\<bar> < 2 ^ 128 - 2 ^ 103"
    by simp
  then have "r32 x = Fin (rnd x)"
    by (rule r32_fin)
  with rnd_close [of x] show ?thesis
    by blast
qed

lemma r32_near_coarse:
  assumes "\<bar>x\<bar> \<le> 1000"
  shows "\<exists>y. r32 x = Fin y \<and> \<bar>y - x\<bar> \<le> 1 / 1000"
proof -
  from r32_near [OF assms] obtain y where
    y: "r32 x = Fin y" and c: "\<bar>y - x\<bar> \<le> \<bar>x\<bar> / 2 ^ 24 + 1 / 2 ^ 150"
    by blast
  have "\<bar>x\<bar> / 2 ^ 24 \<le> 1000 / 2 ^ 24"
    using assms by (intro divide_right_mono) simp_all
  then have "\<bar>x\<bar> / 2 ^ 24 + 1 / 2 ^ 150 \<le> 1000 / 2 ^ 24 + 1 / 2 ^ 150"
    by simp
  also have "\<dots> \<le> 1 / 1000"
    by simp
  finally have "\<bar>y - x\<bar> \<le> 1 / 1000"
    using c by simp
  with y show ?thesis
    by blast
qed

lemma recons_elem_finite:
  "\<exists>v. recons_elem 100 (Fin 1) = Fin v \<and> 989 / 10 \<le> v \<and> v \<le> 996 / 10"
proof -
  have a: "fmul (r32 100) (Fin 1) = Fin 100"
    by (simp add: r32_fin rnd_100)
  have b: "fmul (r32 (- 2 * 100)) (Fin 1) = Fin (- 200)"
    by (simp add: r32_fin rnd_m200)
  have c: "flog (fadd (Fin 1) (Fin 0)) = Fin 0"
    by (simp add: r32_1 r32_0)
  have d: "fadd (Fin 100) (Fin 0) = Fin 100"
    by (simp add: r32_fin rnd_100)
  obtain y where y: "flog (Fin 2) = Fin y" and lo: "49 / 100 \<le> y" and hi: "y \<le> 101 / 100"
    using flog_2 by blast
  from lo hi have "\<bar>100 - y\<bar> \<le> 1000"
    by simp
  from r32_near_coarse [OF this] obtain v where
    v: "r32 (100 - y) = Fin v" and near: "\<bar>v - (100 - y)\<bar> \<le> 1 / 1000"
    by blast
  have "recons_elem 100 (Fin 1) = Fin v"
    unfolding recons_elem_def a b fexp_m200 c d y using v by (simp add: fsub_def)
  moreover from near lo hi have "989 / 10 \<le> v \<and> v \<le> 996 / 10"
    by linarith
  ultimately show ?thesis
    by blast
qed

lemma recons_loss_finite:
  "\<exists>r. recons_loss sharp_vae [Fin 0] [Fin 1] = Fin r \<and> 98 / 100 < r \<and> r < 1"
proof -
  have t: "fsub (Fin 1) (Fin 0) = Fin 1"
    by (simp add: fsub_def r32_1)
  obtain v where v: "recons_elem 100 (Fin 1) = Fin v" and vb: "989 / 10 \<le> v" "v \<le> 996 / 10"
    using recons_elem_finite by blast
  from vb have "\<bar>0 + v\<bar> \<le> 1000"
    by simp
  from r32_near_coarse [OF this] obtain v2 where
    v2: "r32 (0 + v) = Fin v2" and n2: "\<bar>v2 - (0 + v)\<bar> \<le> 1 / 1000"
    by blast
  from n2 vb have v2b: "988 / 10 \<le> v2" "v2 \<le> 997 / 10"
    by linarith+
  then have "\<bar>v2 / 1\<bar> \<le> 1000"
    by simp
  from r32_near_coarse [OF this] obtain v3 where
    v3: "r32 (v2 / 1) = Fin v3" and n3: "\<bar>v3 - v2 / 1\<bar> \<le> 1 / 1000"
    by blast
  from n3 have "\<bar>v3 - v2\<bar> \<le> 1 / 1000"
    by simp
  with v2b have v3b: "987 / 10 \<le> v3" "v3 \<le> 998 / 10"
    by linarith+
  have "\<bar>1 / 100 :: real\<bar> \<le> 1000"
    by simp
  from r32_near [OF this] obtain k where
    k: "r32 (1 / 100) = Fin k" and nk: "\<bar>k - 1 / 100\<bar> \<le> \<bar>1 / 100 :: real\<bar> / 2 ^ 24 + 1 / 2 ^ 150"
    by blast
  have eps: "\<bar>1 / 100 :: real\<bar> / 2 ^ 24 + 1 / 2 ^ 150 \<le> 1 / 1000000"
    by simp
  from nk eps have "\<bar>k - 1 / 100\<bar> \<le> 1 / 1000000"
    by (rule order_trans)
  then have kb: "9999 / 1000000 \<le> k" "k \<le> 10001 / 1000000"
    by linarith+
  have lo: "9999 / 1000000 * (987 / 10) \<le> k * v3"
    using kb v3b by (intro mult_mono) simp_all
  have hi: "k * v3 \<le> 10001 / 1000000 * (998 / 10)"
    using kb v3b by (intro mult_mono) simp_all
  from lo hi have "\<bar>k * v3\<bar> \<le> 1000"
    by simp
  from r32_near_coarse [OF this] obtain r where
    r: "r32 (k * v3) = Fin r" and nr: "\<bar>r - k * v3\<bar> \<le> 1 / 1000"
    by blast
  from nr lo hi have "98 / 100 < r \<and> r < 1"
    by linarith
  moreover have "recons_loss sharp_vae [Fin 0] [Fin 1] = Fin r"
    using v v2 v3 k r t by (simp add: recons_loss_def sharp_vae_def fmean_def fsum_def r32_1)
  ultimately show ?thesis
    by blast
qed

lemma recons_loss_overflow: "recons_loss sharp_vae [Fin 1] [Fin 0] = PInf"
proof -
  have t: "fsub (Fin 0) (Fin 1) = Fin (- 1)"
    by (simp add: fsub_def r32_fin rnd_m1)
  have "\<bar>1 / 100 :: real\<bar> \<le> 1000"
    by simp
  from r32_near [OF this] obtain k where
    k: "r32 (1 / 100) = Fin k" and nk: "\<bar>k - 1 / 100\<bar> \<le> \<bar>1 / 100 :: real\<bar> / 2 ^ 24 + 1 / 2 ^ 150"
    by blast
  have eps: "\<bar>1 / 100 :: real\<bar> / 2 ^ 24 + 1 / 2 ^ 150 \<le> 1 / 1000000"
    by simp
  from nk eps have "\<bar>k - 1 / 100\<bar> \<le> 1 / 1000000"
    by (rule order_trans)
  then have "0 < k"
    by linarith
  then show ?thesis
    using k t by (simp add: recons_loss_def sharp_vae_def fmean_def fsum_def r32_1
        recons_elem_overflow)
qed

section \<open>The KL term at the prior\<close>

lemma fsum_zeros: "fsum (replicate n (Fin 0)) = Fin 0"
proof -
  have "foldl fadd (Fin 0) (replicate n (Fin 0)) = Fin 0"
    by (induction n) (simp_all add: r32_0)
  then show ?thesis
    by (simp add: fsum_def)
qed

lemma r32_count: "0 < n \<Longrightarrow> r32 (real n) = PInf \<or> (\<exists>y. r32 (real n) = Fin y \<and> y \<noteq> 0)"
proof -
  assume "0 < n"
  then have one: "1 \<le> real n"
    by simp
  have "\<bar>rnd (real n) - real n\<bar> \<le> \<bar>real n\<bar> / 2 ^ 24 + 1 / 2 ^ 150"
    by (rule rnd_close)
  also have "\<dots> \<le> real n / 2 + 1 / 4"
    by (simp add: divide_simps)
  finally have "rnd (real n) \<noteq> 0"
    using one by auto
  then show ?thesis
    by (auto simp: r32_def)
qed

lemma fmean_zeros: "0 < n \<Longrightarrow> fmean (replicate n (Fin 0)) = Fin 0"
  using r32_count [of n] by (auto simp: fmean_def fsum_zeros r32_0)

lemma kld_zeros:
  assumes "0 < b"
  shows "kld_loss (replicate b (replicate d (Fin 0))) (replicate b (replicate d (Fin 0))) = Fin 0"
  using assms
  by (simp add: kld_loss_def zip_replicate fsub_def r32_0 r32_1 fsum_zeros fmean_zeros)

section \<open>The schedule of the probes\<close>

text \<open>The periods are 1000 and 2000 steps, and every step with a quantitative probe has a
  qualitative one before it.\<close>

lemma per_1000: "nat \<lfloor>real num_iters / 20\<rfloor> = 1000"
  by (simp add: num_iters_def)

lemma per_2000: "nat \<lfloor>real num_iters / 10\<rfloor> = 2000"
  by (simp add: num_iters_def)

lemma qual_due_iff: "qual_due i \<longleftrightarrow> i mod 1000 = 0 \<or> i = 19999"
  unfolding qual_due_def per_1000 by (simp add: num_iters_def)

lemma quant_due_iff: "quant_due i \<longleftrightarrow> i mod 2000 = 0 \<or> i = 19999"
  unfolding quant_due_def per_2000 by (simp add: num_iters_def)

lemma past_half_iff: "past_half i \<longleftrightarrow> 10000 \<le> i"
  by (simp add: past_half_def num_iters_def)

lemma quant_due_qual_due:
  assumes "quant_due i"
  shows "qual_due i"
proof -
  from assms have "i mod 2000 = 0 \<or> i = 19999"
    by (simp add: quant_due_iff)
  then show ?thesis
  proof (elim disjE)
    assume "i mod 2000 = 0"
    then have "2000 dvd i"
      by (simp add: mod_eq_0_iff_dvd)
    moreover have "(1000::nat) dvd 2000"
      by simp
    ultimately have "1000 dvd i"
      using dvd_trans by blast
    then show ?thesis
      unfolding qual_due_iff by (simp add: mod_eq_0_iff_dvd)
  next
    assume "i = 19999"
    then show ?thesis
      unfolding qual_due_iff by simp
  qed
qed

section \<open>The generator returns on a loader that yields a batch, and only then\<close>

lemma sample_data_some: "0 < n \<Longrightarrow> sample_data n p = Some (if p < n then Suc p else 1)"
proof (cases "p < n")
  case True
  then show ?thesis by (subst sample_data.simps) simp
next
  case False
  assume "0 < n"
  have "sample_data n p = sample_data n 0"
    using False by (subst sample_data.simps) simp
  also have "\<dots> = Some 1"
    using \<open>0 < n\<close> by (subst sample_data.simps) simp
  finally show ?thesis using False by simp
qed

lemma sample_data_none: "sample_data 0 p = None"
proof (rule ccontr)
  assume "sample_data 0 p \<noteq> None"
  then obtain r where ret: "sample_data 0 p = Some r"
    by auto
  have "(0::nat) \<noteq> 0"
  proof (rule sample_data.raw_induct [where P = "\<lambda>n p r. n \<noteq> 0", OF _ ret])
    fix f :: "nat \<Rightarrow> nat \<Rightarrow> nat option" and n p r
    assume IH: "\<And>n p r. f n p = Some r \<Longrightarrow> n \<noteq> 0"
      and eq: "(if p < n then Some (Suc p) else f n 0) = Some r"
    show "n \<noteq> (0::nat)"
    proof (cases "p < n")
      case True
      then show ?thesis by simp
    next
      case False
      with eq have "f n 0 = Some r" by simp
      then show ?thesis by (rule IH)
    qed
  qed
  then show False by simp
qed

section \<open>One step\<close>

text \<open>
  What a step produces, by the way it ends: all of \<open>step_events\<close> when it goes on to the
  next step, the same followed by the exit when the loss is NaN, a prefix with no sample
  appended when it raises.
\<close>

lemma qual_probe_cases:
  "qual_probe w a i st = (qs, r) \<Longrightarrow>
     (\<not> qual_due i \<and> qs = [] \<and> r = Inr st) \<or>
     (qual_due i \<and> r = Inr (st\<lparr>training := False\<rparr>) \<and>
        qs = [(a, Some i, ModeEval), (a, Some i, Reconstruct False False),
              (a, Some i, Generate False False)]) \<or>
     (qual_due i \<and> (\<exists>e. r = Inl e) \<and>
        (qs = [(a, Some i, ModeEval)] \<or>
         qs = [(a, Some i, ModeEval), (a, Some i, Reconstruct False False)]))"
  by (auto simp: qual_probe_def vae_eval_def no_grad_def Let_def split: if_splits option.splits)

lemma quant_probe_cases:
  "quant_probe w a i st = (vs, r) \<Longrightarrow>
     (\<not> quant_due i \<and> vs = [] \<and> r = Inr st) \<or>
     (quant_due i \<and> past_half i \<and>
        r = Inr (st\<lparr>training := fid_sets_training w a i (training st),
                     scores := scores st @ [score w a i]\<rparr>) \<and>
        vs = [(a, Some i, Fid (training st) False), (a, Some i, Score (score w a i)),
              (a, Some i, Append (score w a i))]) \<or>
     (quant_due i \<and> \<not> past_half i \<and>
        r = Inr (st\<lparr>training := fid_sets_training w a i (training st)\<rparr>) \<and>
        vs = [(a, Some i, Fid (training st) False), (a, Some i, Score (score w a i))]) \<or>
     (quant_due i \<and> (\<exists>e. r = Inl e) \<and>
        (vs = [] \<or>
         vs = [(a, Some i, Fid (training st) False), (a, Some i, Score (score w a i))]))"
  by (auto simp: quant_probe_def no_grad_def Let_def split: if_splits option.splits)

lemma train_step_next:
  assumes "train_step w a n i st = Some (evs, Next st')"
  shows "evs = step_events w a i (grad st)"
    and "\<not> loss_isnan w a i"
    and "grad st' = grad st"
    and "scores st' = scores st @ (if quant_due i \<and> past_half i then [score w a i] else [])"
    and "training st' = (if quant_due i then fid_sets_training w a i False else \<not> qual_due i)"
  using assms quant_due_qual_due [of i]
  by (auto simp: train_step_def vae_train_def step_events_def Let_def
      dest!: qual_probe_cases quant_probe_cases
      split: option.splits prod.splits sum.splits if_splits)

lemma train_step_nan:
  assumes "train_step w a n i st = Some (evs, NanExit)"
  shows "evs = step_events w a i (grad st) @ nan_exit_events a i"
    and "loss_isnan w a i"
  using assms quant_due_qual_due [of i]
  by (auto simp: train_step_def vae_train_def step_events_def nan_exit_events_def Let_def
      dest!: qual_probe_cases quant_probe_cases
      split: option.splits prod.splits sum.splits if_splits)

lemma train_step_raise:
  assumes "train_step w a n i st = Some (evs, Raise e)"
  shows "prefix evs (step_events w a i (grad st))"
    and "appended a evs = []"
    and "evs \<noteq> []"
  using assms quant_due_qual_due [of i]
  by (auto simp: train_step_def vae_train_def step_events_def Let_def appended_def
      dest!: qual_probe_cases quant_probe_cases
      split: option.splits prod.splits sum.splits if_splits)

lemma train_step_returns_iff: "(\<exists>r. train_step w a n i st = Some r) \<longleftrightarrow> 0 < n"
proof (cases "n = 0")
  case True
  then show ?thesis by (simp add: train_step_def vae_train_def sample_data_none)
next
  case False
  then show ?thesis by (simp add: train_step_def vae_train_def sample_data_some Let_def)
qed

lemma train_step_clean:
  assumes "0 < n" and "step_fault w a i = None" and "get_rank w = 0"
  shows "\<exists>st'. train_step w a n i st =
     Some (if loss_isnan w a i
           then (step_events w a i (grad st) @ nan_exit_events a i, NanExit)
           else (step_events w a i (grad st), Next st'))"
  using assms quant_due_qual_due [of i]
  by (auto simp: train_step_def vae_train_def vae_eval_def no_grad_def sample_data_some
      fault_in_def qual_probe_def quant_probe_def step_events_def nan_exit_events_def Let_def)

section \<open>The \<open>for\<close> loop\<close>

lemma steps_events_simps [simp]:
  "steps_events w a g [] = []"
  "steps_events w a g (i # xs) = step_events w a i g @ steps_events w a g xs"
  "steps_events w a g (xs @ ys) = steps_events w a g xs @ steps_events w a g ys"
  by (simp_all add: steps_events_def)

lemma run_steps_done:
  "run_steps w a n xs st = Some (evs, Done st') \<Longrightarrow>
     evs = steps_events w a (grad st) xs \<and> (\<forall>i\<in>set xs. \<not> loss_isnan w a i) \<and>
     grad st' = grad st \<and>
     scores st' = scores st @ map (score w a) (filter (\<lambda>i. quant_due i \<and> past_half i) xs)"
proof (induction xs arbitrary: st evs)
  case Nil
  then show ?case by simp
next
  case (Cons i xs)
  from Cons.prems obtain e1 st1 e2 where
    s1: "train_step w a n i st = Some (e1, Next st1)" and
    s2: "run_steps w a n xs st1 = Some (e2, Done st')" and
    ev: "evs = e1 @ e2"
    by (auto split: option.splits prod.splits step_result.splits)
  from Cons.IH [OF s2] train_step_next [OF s1] ev show ?case
    by simp
qed

lemma run_steps_nan:
  "run_steps w a n xs st = Some (evs, Nan i) \<Longrightarrow>
     \<exists>pre post. xs = pre @ i # post \<and>
       evs = steps_events w a (grad st) pre @ step_events w a i (grad st) @ nan_exit_events a i \<and>
       loss_isnan w a i \<and> (\<forall>j\<in>set pre. \<not> loss_isnan w a j)"
proof (induction xs arbitrary: st evs)
  case Nil
  then show ?case by simp
next
  case (Cons j xs)
  show ?case
  proof (cases "train_step w a n j st")
    case None
    with Cons.prems show ?thesis by simp
  next
    case (Some r)
    obtain e1 res where r: "r = (e1, res)"
      by (cases r)
    show ?thesis
    proof (cases res)
      case (Next st1)
      with Cons.prems Some r obtain e2 where
        s2: "run_steps w a n xs st1 = Some (e2, Nan i)" and ev: "evs = e1 @ e2"
        by (auto split: option.splits prod.splits)
      from Some r Next have s1: "train_step w a n j st = Some (e1, Next st1)"
        by simp
      from Cons.IH [OF s2] obtain pre post where
        "xs = pre @ i # post"
        "e2 = steps_events w a (grad st1) pre @ step_events w a i (grad st1) @ nan_exit_events a i"
        "loss_isnan w a i" "\<forall>j\<in>set pre. \<not> loss_isnan w a j"
        by blast
      with train_step_next [OF s1] ev have
        "j # xs = (j # pre) @ i # post \<and>
         evs = steps_events w a (grad st) (j # pre) @ step_events w a i (grad st) @ nan_exit_events a i \<and>
         loss_isnan w a i \<and> (\<forall>k\<in>set (j # pre). \<not> loss_isnan w a k)"
        by simp
      then show ?thesis by blast
    next
      case NanExit
      with Cons.prems Some r have ij: "i = j" and ev: "evs = e1"
        by auto
      from Some r NanExit have s1: "train_step w a n j st = Some (e1, NanExit)"
        by simp
      from train_step_nan [OF s1] ij ev have
        "j # xs = [] @ i # xs \<and>
         evs = steps_events w a (grad st) [] @ step_events w a i (grad st) @ nan_exit_events a i \<and>
         loss_isnan w a i \<and> (\<forall>k\<in>set []. \<not> loss_isnan w a k)"
        by simp
      then show ?thesis by blast
    next
      case (Raise e)
      with Cons.prems Some r show ?thesis by simp
    qed
  qed
qed

lemma run_steps_exc:
  "run_steps w a n xs st = Some (evs, Exc e i) \<Longrightarrow>
     \<exists>pre post evs_i. xs = pre @ i # post \<and>
       evs = steps_events w a (grad st) pre @ evs_i \<and>
       prefix evs_i (step_events w a i (grad st)) \<and> appended a evs_i = [] \<and> evs_i \<noteq> [] \<and>
       (\<forall>j\<in>set pre. \<not> loss_isnan w a j)"
proof (induction xs arbitrary: st evs)
  case Nil
  then show ?case by simp
next
  case (Cons j xs)
  show ?case
  proof (cases "train_step w a n j st")
    case None
    with Cons.prems show ?thesis by simp
  next
    case (Some r)
    obtain e1 res where r: "r = (e1, res)"
      by (cases r)
    show ?thesis
    proof (cases res)
      case (Next st1)
      with Cons.prems Some r obtain e2 where
        s2: "run_steps w a n xs st1 = Some (e2, Exc e i)" and ev: "evs = e1 @ e2"
        by (auto split: option.splits prod.splits)
      from Some r Next have s1: "train_step w a n j st = Some (e1, Next st1)"
        by simp
      from Cons.IH [OF s2] obtain pre post evs_i where
        "xs = pre @ i # post"
        "e2 = steps_events w a (grad st1) pre @ evs_i"
        "prefix evs_i (step_events w a i (grad st1))" "appended a evs_i = []" "evs_i \<noteq> []"
        "\<forall>j\<in>set pre. \<not> loss_isnan w a j"
        by blast
      with train_step_next [OF s1] ev have
        "j # xs = (j # pre) @ i # post \<and>
         evs = steps_events w a (grad st) (j # pre) @ evs_i \<and>
         prefix evs_i (step_events w a i (grad st)) \<and> appended a evs_i = [] \<and> evs_i \<noteq> [] \<and>
         (\<forall>k\<in>set (j # pre). \<not> loss_isnan w a k)"
        by simp
      then show ?thesis by blast
    next
      case NanExit
      with Cons.prems Some r show ?thesis by simp
    next
      case (Raise e')
      with Cons.prems Some r have ij: "i = j" and ev: "evs = e1" and ee: "e' = e"
        by auto
      from Some r Raise ee have s1: "train_step w a n j st = Some (e1, Raise e)"
        by simp
      from train_step_raise [OF s1] ij ev have
        "j # xs = [] @ i # xs \<and>
         evs = steps_events w a (grad st) [] @ e1 \<and>
         prefix e1 (step_events w a i (grad st)) \<and> appended a e1 = [] \<and> e1 \<noteq> [] \<and>
         (\<forall>k\<in>set []. \<not> loss_isnan w a k)"
        by simp
      then show ?thesis by blast
    qed
  qed
qed

lemma run_steps_returns_iff:
  "(\<exists>r. run_steps w a n xs st = Some r) \<longleftrightarrow> xs = [] \<or> 0 < n"
proof (induction xs arbitrary: st)
  case Nil
  show ?case by simp
next
  case (Cons i xs)
  show ?case
  proof (cases "n = 0")
    case True
    then have "train_step w a n i st = None"
      by (simp add: train_step_def vae_train_def sample_data_none)
    with True show ?thesis by simp
  next
    case False
    then obtain evs res where s1: "train_step w a n i st = Some (evs, res)"
      using train_step_returns_iff [of w a n i st] by auto
    show ?thesis
    proof (cases res)
      case (Next st1)
      from Cons.IH [of st1] False obtain r2 where "run_steps w a n xs st1 = Some r2"
        by auto
      with s1 Next False show ?thesis by (auto split: prod.splits)
    next
      case NanExit
      with s1 False show ?thesis by simp
    next
      case (Raise e)
      with s1 False show ?thesis by simp
    qed
  qed
qed

lemma run_steps_clean:
  assumes "0 < n" and "get_rank w = 0"
    and "\<forall>i\<in>set xs. step_fault w a i = None \<and> \<not> loss_isnan w a i"
  shows "\<exists>st'. run_steps w a n xs st = Some (steps_events w a (grad st) xs, Done st')"
  using assms(3)
proof (induction xs arbitrary: st)
  case Nil
  show ?case by simp
next
  case (Cons i xs)
  from Cons.prems have "step_fault w a i = None" and "\<not> loss_isnan w a i"
    by simp_all
  with train_step_clean [OF assms(1) _ assms(2), of a i st] obtain st1 where
    s1: "train_step w a n i st = Some (step_events w a i (grad st), Next st1)"
    by auto
  from Cons.prems have "\<forall>i\<in>set xs. step_fault w a i = None \<and> \<not> loss_isnan w a i"
    by simp
  from Cons.IH [OF this, of st1] obtain st' where
    "run_steps w a n xs st1 = Some (steps_events w a (grad st1) xs, Done st')"
    by blast
  with s1 train_step_next(3) [OF s1] show ?case
    by simp
qed

lemma run_steps_append:
  "run_steps w a n (xs @ ys) st =
     (case run_steps w a n xs st of
        None \<Rightarrow> None
      | Some (evs, Done st') \<Rightarrow>
          (case run_steps w a n ys st' of
             None \<Rightarrow> None
           | Some (evs', r) \<Rightarrow> Some (evs @ evs', r))
      | Some (evs, Nan i) \<Rightarrow> Some (evs, Nan i)
      | Some (evs, Exc e i) \<Rightarrow> Some (evs, Exc e i))"
proof (induction xs arbitrary: st)
  case Nil
  show ?case by (simp split: option.splits)
next
  case (Cons i xs)
  show ?case
    by (simp add: Cons.IH split: option.splits prod.splits step_result.splits loop_result.splits)
qed

section \<open>One attempt\<close>

lemma attempt_completed:
  assumes "attempt hp w a b v = Some (evs, Completed)"
  shows "evs = setup_events hp a b @ steps_events w a True [0..<num_iters] @
           [(a, None, Score (weighted_scores (map (score w a) (sampled [0..<num_iters]))))]"
    and "\<forall>i<num_iters. \<not> loss_isnan w a i"
proof -
  from assms obtain p e1 st' where
    run: "run_steps w a (loader_len w (nat \<lfloor>b\<rfloor>)) [0..<num_iters]
            \<lparr>training = True, grad = True, scores = [], pos = p\<rparr> = Some (e1, Done st')" and
    ev: "evs = setup_events hp a b @ e1 @ [(a, None, Score (weighted_scores (scores st')))]"
    by (auto simp: attempt_def setup_events_def Let_def
        split: option.splits prod.splits loop_result.splits)
  from run_steps_done [OF run] ev
  show "evs = setup_events hp a b @ steps_events w a True [0..<num_iters] @
           [(a, None, Score (weighted_scores (map (score w a) (sampled [0..<num_iters]))))]"
    and "\<forall>i<num_iters. \<not> loss_isnan w a i"
    by (simp_all add: sampled_def)
qed

lemma attempt_nan:
  assumes "attempt hp w a b v = Some (evs, NanAborted)"
  shows "\<exists>pre post i. [0..<num_iters] = pre @ i # post \<and>
           evs = setup_events hp a b @ steps_events w a True pre @ step_events w a i True @
                 nan_exit_events a i \<and>
           loss_isnan w a i \<and> (\<forall>j\<in>set pre. \<not> loss_isnan w a j)"
proof -
  from assms obtain p e1 i where
    run: "run_steps w a (loader_len w (nat \<lfloor>b\<rfloor>)) [0..<num_iters]
            \<lparr>training = True, grad = True, scores = [], pos = p\<rparr> = Some (e1, Nan i)" and
    ev: "evs = setup_events hp a b @ e1"
    by (auto simp: attempt_def setup_events_def Let_def
        split: option.splits prod.splits loop_result.splits)
  from run_steps_nan [OF run] ev show ?thesis
    by auto
qed

lemma attempt_raised_setup:
  assumes "attempt hp w a b v = Some (evs, Raised e None v')"
  shows "(evs = [] \<and> v' = v) \<or> (evs = [(a, None, Loader (nat \<lfloor>b\<rfloor>))] \<and> v' = BoundNone)"
  using assms
  by (auto simp: attempt_def Let_def split: option.splits prod.splits loop_result.splits)

lemma attempt_raised_step:
  assumes "attempt hp w a b v = Some (evs, Raised e (Some i) v')"
  shows "\<exists>pre post evs_i. [0..<num_iters] = pre @ i # post \<and>
           evs = setup_events hp a b @ steps_events w a True pre @ evs_i \<and>
           prefix evs_i (step_events w a i True) \<and> appended a evs_i = [] \<and> evs_i \<noteq> [] \<and>
           (\<forall>j\<in>set pre. \<not> loss_isnan w a j)"
    and "v' = Built"
proof -
  from assms obtain p e1 where
    run: "run_steps w a (loader_len w (nat \<lfloor>b\<rfloor>)) [0..<num_iters]
            \<lparr>training = True, grad = True, scores = [], pos = p\<rparr> = Some (e1, Exc e i)" and
    ev: "evs = setup_events hp a b @ e1" and v: "v' = Built"
    by (auto simp: attempt_def setup_events_def Let_def
        split: option.splits prod.splits loop_result.splits)
  from run_steps_exc [OF run] ev
  show "\<exists>pre post evs_i. [0..<num_iters] = pre @ i # post \<and>
           evs = setup_events hp a b @ steps_events w a True pre @ evs_i \<and>
           prefix evs_i (step_events w a i True) \<and> appended a evs_i = [] \<and> evs_i \<noteq> [] \<and>
           (\<forall>j\<in>set pre. \<not> loss_isnan w a j)"
    by auto
  from v show "v' = Built" .
qed

lemma attempt_returns:
  assumes "0 < loader_len w (nat \<lfloor>b\<rfloor>)"
  shows "\<exists>r. attempt hp w a b v = Some r"
proof -
  obtain r where
    "run_steps w a (loader_len w (nat \<lfloor>b\<rfloor>)) [0..<num_iters]
       \<lparr>training = True, grad = True, scores = [], pos = Suc 0\<rparr> = Some r"
    using assms run_steps_returns_iff by blast
  then show ?thesis
    using assms
    by (auto simp: attempt_def Let_def sample_data_some
        split: option.splits prod.splits loop_result.splits)
qed

lemma attempt_hangs:
  assumes "loader_len w (nat \<lfloor>b\<rfloor>) = 0" and "setup_fault w a = None"
  shows "attempt hp w a b v = None"
  using assms by (simp add: attempt_def setup_fault_in_def sample_data_none)

lemma attempt_clean:
  assumes "0 < loader_len w (nat \<lfloor>b\<rfloor>)" and "get_rank w = 0" and "setup_fault w a = None"
    and "\<forall>i<num_iters. step_fault w a i = None \<and> \<not> loss_isnan w a i"
  shows "\<exists>evs. attempt hp w a b v = Some (evs, Completed)"
proof -
  obtain st' where
    "run_steps w a (loader_len w (nat \<lfloor>b\<rfloor>)) [0..<num_iters]
       \<lparr>training = True, grad = True, scores = [], pos = Suc 0\<rparr> =
     Some (steps_events w a True [0..<num_iters], Done st')"
    using run_steps_clean [OF assms(1,2), of "[0..<num_iters]" a
        "\<lparr>training = True, grad = True, scores = [], pos = Suc 0\<rparr>"] assms(4)
    by auto
  then show ?thesis
    using assms(1,3)
    by (simp add: attempt_def Let_def sample_data_some setup_fault_in_def)
qed

section \<open>The handler and the outer loop\<close>

lemma handler_return:
  assumes "handle_runtime_error a m i b v = Return hs out"
  shows "(out = CutoffReturn \<and> hs = [] \<and> (\<exists>k. i = Some k \<and> 10000 < k)) \<or>
         (out = OomFatal \<and> b / 2 < 1 \<and> (\<forall>k. i = Some k \<longrightarrow> k \<le> 10000) \<and>
            hs = [(a, None, Halve (b / 2)),
                  (a, None, Print ''This configuration does not fit into memory, exiting...''),
                  (a, None, Score 27000)]) \<or>
         (out = Propagated (OtherError ''UnboundLocalError'') \<and> 1 \<le> b / 2 \<and>
            (\<forall>k. i = Some k \<longrightarrow> k \<le> 10000) \<and>
            hs = [(a, None, Halve (b / 2)), (a, None, PrintHalving (b / 2))]) \<or>
         (out = OtherFatal \<and> (\<forall>k. i = Some k \<longrightarrow> k \<le> 10000) \<and> hs = [(a, None, Print m)])"
  using assms
  by (auto simp: handle_runtime_error_def split: if_splits option.splits binding.splits)

lemma handler_retry:
  assumes "handle_runtime_error a m i b v = Retry hs v'"
  shows "hs = [(a, None, Halve (b / 2)), (a, None, PrintHalving (b / 2)), (a, None, Release)]"
    and "1 \<le> b / 2" and "\<forall>k. i = Some k \<longrightarrow> k \<le> 10000"
  using assms
  by (auto simp: handle_runtime_error_def split: if_splits option.splits binding.splits)

text \<open>
  The five ways through one iteration of the \<open>while\<close> loop, as a case rule and as an
  induction rule over the runs that return.
\<close>

lemma train_loop_cases [consumes 1, case_names exit finished propagated returned retried]:
  assumes "train_loop hp w a i b v = Some (tr, out)"
  obtains
    "b < 1" and "tr = []" and "out = LoopExit"
  | evs r where "1 \<le> b" and "attempt hp w a b v = Some (evs, r)"
      and "r = Completed \<and> out = Success \<or> r = NanAborted \<and> out = NanAbort"
      and "tr = (a, None, Try b) # evs"
  | evs m j v' where "1 \<le> b" and "attempt hp w a b v = Some (evs, Raised (OtherError m) j v')"
      and "out = Propagated (OtherError m)" and "tr = (a, None, Try b) # evs"
  | evs m j v' hs where "1 \<le> b"
      and "attempt hp w a b v = Some (evs, Raised (RuntimeError m) j v')"
      and "handle_runtime_error a m (case j of None \<Rightarrow> i | Some k \<Rightarrow> Some k) b v' = Return hs out"
      and "tr = (a, None, Try b) # evs @
                (a, None, Caught (RuntimeError m) (case j of None \<Rightarrow> i | Some k \<Rightarrow> Some k)) # hs"
  | evs m j v' hs v'' tr' where "1 \<le> b"
      and "attempt hp w a b v = Some (evs, Raised (RuntimeError m) j v')"
      and "handle_runtime_error a m (case j of None \<Rightarrow> i | Some k \<Rightarrow> Some k) b v' = Retry hs v''"
      and "train_loop hp w (Suc a) (case j of None \<Rightarrow> i | Some k \<Rightarrow> Some k) (b / 2) v'' =
             Some (tr', out)"
      and "tr = (a, None, Try b) # evs @
                (a, None, Caught (RuntimeError m) (case j of None \<Rightarrow> i | Some k \<Rightarrow> Some k)) # hs @ tr'"
  using assms
  by (auto simp: train_loop.simps [of hp w a i b v] Let_def
      split: if_splits option.splits prod.splits attempt_result.splits exn.splits handled.splits)

lemma train_loop_induct [consumes 1, case_names exit finished propagated returned retried]:
  assumes run: "train_loop hp w a i b v = Some (tr, out)"
    and exit: "\<And>a i b v. b < 1 \<Longrightarrow> P a i b v [] LoopExit"
    and finished: "\<And>a i b v evs r out.
        1 \<le> b \<Longrightarrow> attempt hp w a b v = Some (evs, r) \<Longrightarrow>
        r = Completed \<and> out = Success \<or> r = NanAborted \<and> out = NanAbort \<Longrightarrow>
        P a i b v ((a, None, Try b) # evs) out"
    and propagated: "\<And>a i b v evs m j v'.
        1 \<le> b \<Longrightarrow> attempt hp w a b v = Some (evs, Raised (OtherError m) j v') \<Longrightarrow>
        P a i b v ((a, None, Try b) # evs) (Propagated (OtherError m))"
    and returned: "\<And>a i b v evs m j v' hs out.
        1 \<le> b \<Longrightarrow> attempt hp w a b v = Some (evs, Raised (RuntimeError m) j v') \<Longrightarrow>
        handle_runtime_error a m (case j of None \<Rightarrow> i | Some k \<Rightarrow> Some k) b v' = Return hs out \<Longrightarrow>
        P a i b v
          ((a, None, Try b) # evs @
           (a, None, Caught (RuntimeError m) (case j of None \<Rightarrow> i | Some k \<Rightarrow> Some k)) # hs) out"
    and retried: "\<And>a i b v evs m j v' hs v'' tr' out.
        1 \<le> b \<Longrightarrow> attempt hp w a b v = Some (evs, Raised (RuntimeError m) j v') \<Longrightarrow>
        handle_runtime_error a m (case j of None \<Rightarrow> i | Some k \<Rightarrow> Some k) b v' = Retry hs v'' \<Longrightarrow>
        train_loop hp w (Suc a) (case j of None \<Rightarrow> i | Some k \<Rightarrow> Some k) (b / 2) v'' =
          Some (tr', out) \<Longrightarrow>
        P (Suc a) (case j of None \<Rightarrow> i | Some k \<Rightarrow> Some k) (b / 2) v'' tr' out \<Longrightarrow>
        P a i b v
          ((a, None, Try b) # evs @
           (a, None, Caught (RuntimeError m) (case j of None \<Rightarrow> i | Some k \<Rightarrow> Some k)) # hs @ tr')
          out"
  shows "P a i b v tr out"
  using assms
proof (induction hp w a i b v arbitrary: tr out rule: train_loop.induct)
  case (1 hp w a i b v)
  note rules = "1.prems"(2-6)
  from "1.prems"(1) show ?case
  proof (cases rule: train_loop_cases)
    case exit
    then show ?thesis
      using rules(1) by simp
  next
    case (finished evs r)
    then show ?thesis
      using rules(2) by simp
  next
    case (propagated evs m j v')
    then show ?thesis
      using rules(3) by simp
  next
    case (returned evs m j v' hs)
    then show ?thesis
      using rules(4) by simp
  next
    case (retried evs m j v' hs v'' tr')
    have "P (Suc a) (case j of None \<Rightarrow> i | Some k \<Rightarrow> Some k) (b / 2) v'' tr' out"
      by (rule "1.IH" [OF retried(1,2) refl refl refl refl refl retried(3,4) rules])
    with retried show ?thesis
      using rules(5) by simp
  qed
qed

section \<open>The events of an attempt are plain\<close>

lemma step_events_plain:
  "i < num_iters \<Longrightarrow> e \<in> set (step_events w a i True) \<Longrightarrow> plain_event a e"
  by (auto simp: step_events_def plain_event_def split: if_splits)

lemma nan_exit_events_plain:
  "i < num_iters \<Longrightarrow> e \<in> set (nan_exit_events a i) \<Longrightarrow> plain_event a e"
  by (auto simp: nan_exit_events_def plain_event_def)

lemma setup_events_plain: "e \<in> set (setup_events hp a b) \<Longrightarrow> plain_event a e"
  by (auto simp: setup_events_def plain_event_def)

lemma steps_events_set:
  "e \<in> set (steps_events w a g xs) \<longleftrightarrow> (\<exists>i\<in>set xs. e \<in> set (step_events w a i g))"
  by (auto simp: steps_events_def)

lemma upt_decomp:
  assumes "[0..<n] = pre @ i # post"
  shows "i < n" and "\<forall>j\<in>set pre. j < i" and "\<forall>j\<in>set post. i < j" and "\<forall>j\<in>set pre. j < n"
proof -
  have "i \<in> set [0..<n]"
    using assms by simp
  then show "i < n"
    by simp
  have "sorted_wrt (<) (pre @ i # post)"
    using assms sorted_wrt_upt [of 0 n] by simp
  then show "\<forall>j\<in>set pre. j < i" and "\<forall>j\<in>set post. i < j"
    by (auto simp: sorted_wrt_append)
  have "set pre \<subseteq> set [0..<n]"
    unfolding assms by auto
  then show "\<forall>j\<in>set pre. j < n"
    by auto
qed

lemma steps_events_plain:
  "\<forall>j\<in>set xs. j < num_iters \<Longrightarrow> e \<in> set (steps_events w a True xs) \<Longrightarrow> plain_event a e"
  by (auto simp: steps_events_set intro: step_events_plain)

lemma attempt_plain:
  assumes "attempt hp w a b v = Some (evs, r)" and "e \<in> set evs"
  shows "plain_event a e"
proof (cases r)
  case Completed
  with assms(1) have
    "evs = setup_events hp a b @ steps_events w a True [0..<num_iters] @
           [(a, None, Score (weighted_scores (map (score w a) (sampled [0..<num_iters]))))]"
    by (simp add: attempt_completed)
  with assms(2) consider "e \<in> set (setup_events hp a b)"
    | "e \<in> set (steps_events w a True [0..<num_iters])"
    | "e = (a, None, Score (weighted_scores (map (score w a) (sampled [0..<num_iters]))))"
    by auto
  then show ?thesis
  proof cases
    case 1
    then show ?thesis by (rule setup_events_plain)
  next
    case 2
    then show ?thesis by (rule steps_events_plain [rotated]) simp
  next
    case 3
    then show ?thesis by (simp add: plain_event_def)
  qed
next
  case NanAborted
  with assms(1) obtain pre post i where
    d: "[0..<num_iters] = pre @ i # post" and
    ev: "evs = setup_events hp a b @ steps_events w a True pre @ step_events w a i True @
           nan_exit_events a i"
    using attempt_nan by blast
  from ev assms(2) consider "e \<in> set (setup_events hp a b)"
    | "e \<in> set (steps_events w a True pre)" | "e \<in> set (step_events w a i True)"
    | "e \<in> set (nan_exit_events a i)"
    by auto
  then show ?thesis
  proof cases
    case 1
    then show ?thesis by (rule setup_events_plain)
  next
    case 2
    with upt_decomp(4) [OF d] show ?thesis by (rule steps_events_plain)
  next
    case 3
    with upt_decomp(1) [OF d] show ?thesis by (rule step_events_plain)
  next
    case 4
    with upt_decomp(1) [OF d] show ?thesis by (rule nan_exit_events_plain)
  qed
next
  case (Raised x j v')
  show ?thesis
  proof (cases j)
    case None
    with Raised assms(1) have "evs = [] \<or> evs = [(a, None, Loader (nat \<lfloor>b\<rfloor>))]"
      using attempt_raised_setup by blast
    with assms(2) show ?thesis by (auto simp: plain_event_def)
  next
    case (Some i)
    with Raised assms(1) obtain pre post evs_i where
      d: "[0..<num_iters] = pre @ i # post" and
      ev: "evs = setup_events hp a b @ steps_events w a True pre @ evs_i" and
      pf: "prefix evs_i (step_events w a i True)"
      using attempt_raised_step(1) by blast
    from ev assms(2) consider "e \<in> set (setup_events hp a b)"
      | "e \<in> set (steps_events w a True pre)" | "e \<in> set evs_i"
      by auto
    then show ?thesis
    proof cases
      case 1
      then show ?thesis by (rule setup_events_plain)
    next
      case 2
      with upt_decomp(4) [OF d] show ?thesis by (rule steps_events_plain)
    next
      case 3
      with pf have "e \<in> set (step_events w a i True)"
        using set_mono_prefix by blast
      with upt_decomp(1) [OF d] show ?thesis by (rule step_events_plain)
    qed
  qed
qed

section \<open>Whole runs\<close>

subsection \<open>Stamps, and the cutoff at step 10000\<close>

lemma handler_events:
  assumes "handle_runtime_error a m i b v = Return hs out \<or>
           handle_runtime_error a m i b v = Retry hs v'"
    and "e \<in> set hs"
  shows "fst e = a \<and> fst (snd e) = None \<and>
         (snd (snd e) = Halve (b / 2) \<or> snd (snd e) = PrintHalving (b / 2) \<or>
          snd (snd e) = Release \<or> snd (snd e) = Score 27000 \<or> (\<exists>s. snd (snd e) = Print s))"
  using assms(1)
proof
  assume "handle_runtime_error a m i b v = Return hs out"
  from handler_return [OF this] assms(2) show ?thesis
    by auto
next
  assume "handle_runtime_error a m i b v = Retry hs v'"
  from handler_retry(1) [OF this] assms(2) show ?thesis
    by auto
qed

lemma train_loop_stamps:
  assumes "train_loop hp w a i b v = Some (tr, out)" and "e \<in> set tr"
  shows "a \<le> fst e"
  using assms
proof (induction rule: train_loop_induct)
  case (exit a i b v)
  then show ?case by simp
next
  case (finished a i b v evs r out)
  then show ?case
    using attempt_plain [of hp w a b v evs r e] by (auto simp: plain_event_def)
next
  case (propagated a i b v evs m j v')
  then show ?case
    using attempt_plain [of hp w a b v evs _ e] by (auto simp: plain_event_def)
next
  case (returned a i b v evs m j v' hs out)
  then show ?case
    using attempt_plain [of hp w a b v evs _ e] handler_events [of a m _ b v' hs out _ e]
    by (auto simp: plain_event_def)
next
  case (retried a i b v evs m j v' hs v'' tr' out)
  then show ?case
    using attempt_plain [of hp w a b v evs _ e] handler_events [of a m _ b v' hs _ v'' e]
    by (auto simp: plain_event_def)
qed

lemma attempt_no_caught:
  assumes "attempt hp w a b v = Some (evs, r)"
  shows "(a', s, Caught e j) \<notin> set evs"
  using attempt_plain [OF assms, of "(a', s, Caught e j)"] by (auto simp: plain_event_def)

lemma handler_no_caught:
  assumes "handle_runtime_error a m i b v = Return hs out \<or>
           handle_runtime_error a m i b v = Retry hs v'"
  shows "(a', s, Caught e j) \<notin> set hs"
  using handler_events [OF assms, of "(a', s, Caught e j)"] by auto

lemma cutoff_loop:
  assumes "train_loop hp w a i b v = Some (tr, out)"
    and "(a0, s, Caught e (Some j)) \<in> set tr" and "10000 < j"
  shows "out = CutoffReturn \<and> last tr = (a0, s, Caught e (Some j))"
  using assms
proof (induction rule: train_loop_induct)
  case (exit a i b v)
  then show ?case by simp
next
  case (finished a i b v evs r out)
  then show ?case
    using attempt_no_caught [of hp w a b v evs r] by auto
next
  case (propagated a i b v evs m j' v')
  then show ?case
    using attempt_no_caught [of hp w a b v evs] by auto
next
  case (returned a i b v evs m j' v' hs out)
  let ?i = "case j' of None \<Rightarrow> i | Some k \<Rightarrow> Some k"
  from returned.prems(1) attempt_no_caught [OF returned.hyps(2)]
    handler_no_caught [of a m ?i b v' hs out]  returned.hyps(3)
  have eq: "(a0, s, Caught e (Some j)) = (a, None, Caught (RuntimeError m) ?i)"
    by auto
  then have "?i = Some j"
    by simp
  with handler_return [OF returned.hyps(3)] \<open>10000 < j\<close> have "out = CutoffReturn" and "hs = []"
    by auto
  with eq show ?case
    by simp
next
  case (retried a i b v evs m j' v' hs v'' tr' out)
  let ?i = "case j' of None \<Rightarrow> i | Some k \<Rightarrow> Some k"
  have "?i \<noteq> Some j"
  proof
    assume "?i = Some j"
    with handler_retry(3) [OF retried.hyps(3)] have "j \<le> 10000"
      by blast
    with \<open>10000 < j\<close> show False
      by simp
  qed
  then have "(a0, s, Caught e (Some j)) \<noteq> (a, None, Caught (RuntimeError m) ?i)"
    by auto
  with retried.prems(1) attempt_no_caught [OF retried.hyps(2)]
    handler_no_caught [of a m ?i b v' hs _ v''] retried.hyps(3)
  have mem: "(a0, s, Caught e (Some j)) \<in> set tr'"
    by auto
  with retried.IH \<open>10000 < j\<close> have "out = CutoffReturn" and "last tr' = (a0, s, Caught e (Some j))"
    by simp_all
  moreover from mem have "tr' \<noteq> []"
    by auto
  ultimately show ?case
    by simp
qed

section \<open>Running a given world\<close>

text \<open>
  Closed forms for an attempt whose steps are undisturbed up to the one that raises or
  whose loss is NaN, and for an attempt that is undisturbed throughout.
\<close>

lemma run_steps_upto:
  assumes "0 < n" and "get_rank w = 0" and "k \<le> m"
    and "\<forall>i<k. step_fault w a i = None \<and> \<not> loss_isnan w a i"
  shows "\<exists>st'. grad st' = grad st \<and>
           run_steps w a n [0..<m] st =
             (case run_steps w a n [k..<m] st' of
                None \<Rightarrow> None
              | Some (evs', r) \<Rightarrow> Some (steps_events w a (grad st) [0..<k] @ evs', r))"
proof -
  from assms(4) have "\<forall>i\<in>set [0..<k]. step_fault w a i = None \<and> \<not> loss_isnan w a i"
    by simp
  from run_steps_clean [OF assms(1,2) this, of st] obtain st' where
    r: "run_steps w a n [0..<k] st = Some (steps_events w a (grad st) [0..<k], Done st')"
    by blast
  from run_steps_done [OF r] have g: "grad st' = grad st"
    by simp
  have "[0..<m] = [0..<k] @ [k..<m]"
    using assms(3) upt_add_eq_append [of 0 k "m - k"] by simp
  then have "run_steps w a n [0..<m] st =
      (case run_steps w a n [k..<m] st' of
         None \<Rightarrow> None
       | Some (evs', r) \<Rightarrow> Some (steps_events w a (grad st) [0..<k] @ evs', r))"
    using r by (simp add: run_steps_append)
  with g show ?thesis
    by blast
qed

lemma run_steps_raise_at:
  assumes "0 < n" and "get_rank w = 0" and "k < m"
    and "\<forall>i<k. step_fault w a i = None \<and> \<not> loss_isnan w a i"
    and "\<And>st'. grad st' = grad st \<Longrightarrow> train_step w a n k st' = Some (evs_k, Raise e)"
  shows "run_steps w a n [0..<m] st = Some (steps_events w a (grad st) [0..<k] @ evs_k, Exc e k)"
proof -
  from run_steps_upto [OF assms(1,2) _ assms(4), of m st] assms(3) obtain st' where
    g: "grad st' = grad st" and
    r: "run_steps w a n [0..<m] st =
          (case run_steps w a n [k..<m] st' of
             None \<Rightarrow> None
           | Some (evs', r) \<Rightarrow> Some (steps_events w a (grad st) [0..<k] @ evs', r))"
    by auto
  have "[k..<m] = k # [Suc k..<m]"
    using assms(3) by (rule upt_conv_Cons)
  with assms(5) [OF g] have "run_steps w a n [k..<m] st' = Some (evs_k, Exc e k)"
    by simp
  with r show ?thesis
    by simp
qed

lemma run_steps_nan_at:
  assumes "0 < n" and "get_rank w = 0" and "k < m"
    and "\<forall>i<k. step_fault w a i = None \<and> \<not> loss_isnan w a i"
    and "step_fault w a k = None" and "loss_isnan w a k"
  shows "run_steps w a n [0..<m] st =
           Some (steps_events w a (grad st) [0..<k] @ step_events w a k (grad st) @
                 nan_exit_events a k, Nan k)"
proof -
  from run_steps_upto [OF assms(1,2) _ assms(4), of m st] assms(3) obtain st' where
    g: "grad st' = grad st" and
    r: "run_steps w a n [0..<m] st =
          (case run_steps w a n [k..<m] st' of
             None \<Rightarrow> None
           | Some (evs', r) \<Rightarrow> Some (steps_events w a (grad st) [0..<k] @ evs', r))"
    by auto
  have "[k..<m] = k # [Suc k..<m]"
    using assms(3) by (rule upt_conv_Cons)
  moreover have "train_step w a n k st' =
      Some (step_events w a k (grad st') @ nan_exit_events a k, NanExit)"
    using train_step_clean [OF assms(1,5,2), of st'] assms(6) by simp
  ultimately have "run_steps w a n [k..<m] st' =
      Some (step_events w a k (grad st) @ nan_exit_events a k, Nan k)"
    using g by simp
  with r show ?thesis
    by simp
qed

lemma attempt_raise_at:
  assumes "0 < loader_len w (nat \<lfloor>b\<rfloor>)" and "get_rank w = 0" and "setup_fault w a = None"
    and "k < num_iters"
    and "\<forall>i<k. step_fault w a i = None \<and> \<not> loss_isnan w a i"
    and "\<And>st'. grad st' = True \<Longrightarrow>
           train_step w a (loader_len w (nat \<lfloor>b\<rfloor>)) k st' = Some (evs_k, Raise e)"
  shows "attempt hp w a b v =
           Some (setup_events hp a b @ steps_events w a True [0..<k] @ evs_k,
                 Raised e (Some k) Built)"
proof -
  have "run_steps w a (loader_len w (nat \<lfloor>b\<rfloor>)) [0..<num_iters]
          \<lparr>training = True, grad = True, scores = [], pos = Suc 0\<rparr> =
        Some (steps_events w a True [0..<k] @ evs_k, Exc e k)"
    using run_steps_raise_at [OF assms(1,2,4,5), of
        "\<lparr>training = True, grad = True, scores = [], pos = Suc 0\<rparr>" evs_k e] assms(6)
    by simp
  then show ?thesis
    using assms(1,3)
    by (simp add: attempt_def Let_def sample_data_some setup_fault_in_def setup_events_def)
qed

lemma attempt_nan_at:
  assumes "0 < loader_len w (nat \<lfloor>b\<rfloor>)" and "get_rank w = 0" and "setup_fault w a = None"
    and "k < num_iters"
    and "\<forall>i<k. step_fault w a i = None \<and> \<not> loss_isnan w a i"
    and "step_fault w a k = None" and "loss_isnan w a k"
  shows "attempt hp w a b v =
           Some (setup_events hp a b @ steps_events w a True [0..<k] @ step_events w a k True @
                 nan_exit_events a k, NanAborted)"
proof -
  have "run_steps w a (loader_len w (nat \<lfloor>b\<rfloor>)) [0..<num_iters]
          \<lparr>training = True, grad = True, scores = [], pos = Suc 0\<rparr> =
        Some (steps_events w a True [0..<k] @ step_events w a k True @ nan_exit_events a k, Nan k)"
    using run_steps_nan_at [OF assms(1,2,4,5,6,7), of
        "\<lparr>training = True, grad = True, scores = [], pos = Suc 0\<rparr>"]
    by simp
  then show ?thesis
    using assms(1,3)
    by (simp add: attempt_def Let_def sample_data_some setup_fault_in_def setup_events_def)
qed

lemma attempt_clean_trace:
  assumes "0 < loader_len w (nat \<lfloor>b\<rfloor>)" and "get_rank w = 0" and "setup_fault w a = None"
    and "\<forall>i<num_iters. step_fault w a i = None \<and> \<not> loss_isnan w a i"
  shows "attempt hp w a b v =
           Some (setup_events hp a b @ steps_events w a True [0..<num_iters] @
                 [(a, None, Score (weighted_scores (map (score w a) (sampled [0..<num_iters]))))],
                 Completed)"
proof -
  from attempt_clean [OF assms, of hp v] obtain evs where
    r: "attempt hp w a b v = Some (evs, Completed)"
    by blast
  from attempt_completed(1) [OF r] r show ?thesis
    by simp
qed

lemma late_oom_attempt:
  "attempt hp late_oom_world 0 512 v =
     Some (setup_events hp 0 512 @ steps_events late_oom_world 0 True [0..<15000] @
           [(0, Some 15000, ModeTrain), (0, Some 15000, Forward True True),
            (0, Some 15000, Loss False)],
           Raised (RuntimeError ''CUDA out of memory'') (Some 15000) Built)"
  by (rule attempt_raise_at)
    (simp_all add: late_oom_world_def quiet_world_def num_iters_def train_step_def
      vae_train_def sample_data_some fault_in_def Let_def)

lemma late_oom_run:
  "train hp late_oom_world =
     Some ((0, None, PrintParams hp) # (0, None, Try 512) #
           setup_events hp 0 512 @ steps_events late_oom_world 0 True [0..<15000] @
           [(0, Some 15000, ModeTrain), (0, Some 15000, Forward True True),
            (0, Some 15000, Loss False),
            (0, None, Caught (RuntimeError ''CUDA out of memory'') (Some 15000))],
           CutoffReturn)"
  by (simp add: train_def train_loop.simps [of _ _ 0] late_oom_attempt handle_runtime_error_def
      Let_def)

text \<open>The scores a step reports.\<close>

lemma step_events_score:
  "(a', s, Score x) \<in> set (step_events w a i g) \<Longrightarrow> x = score w a i"
  by (auto simp: step_events_def split: if_splits)

lemma actions_mem: "x \<in> set (actions tr) \<longleftrightarrow> (\<exists>a s. (a, s, x) \<in> set tr)"
  by (force simp: actions_def)

lemma steps_events_score:
  assumes "Score x \<in> set (actions (steps_events w a g xs))"
  shows "\<exists>i\<in>set xs. x = score w a i"
proof -
  from assms obtain a' s where "(a', s, Score x) \<in> set (steps_events w a g xs)"
    by (auto simp: actions_mem)
  then obtain i where "i \<in> set xs" and "(a', s, Score x) \<in> set (step_events w a i g)"
    by (auto simp: steps_events_set)
  then show ?thesis
    using step_events_score by blast
qed

subsection \<open>The batch sizes tried\<close>

lemma map_filter_append:
  "List.map_filter f (xs @ ys) = List.map_filter f xs @ List.map_filter f ys"
  by (simp add: List.map_filter_def)

lemma map_filter_none: "(\<And>x. x \<in> set xs \<Longrightarrow> f x = None) \<Longrightarrow> List.map_filter f xs = []"
  by (induction xs) simp_all

lemma tried_plain:
  assumes "\<And>e. e \<in> set evs \<Longrightarrow> plain_event a e"
  shows "tried evs = []"
  unfolding tried_def
proof (rule map_filter_none)
  fix e
  assume "e \<in> set evs"
  then have "plain_event a e"
    by (rule assms)
  then show "(case snd (snd e) of Try x \<Rightarrow> Some (fst e, x) | _ \<Rightarrow> None) = None"
    by (cases "snd (snd e)") (simp_all add: plain_event_def)
qed

lemma tried_attempt: "attempt hp w a b v = Some (evs, r) \<Longrightarrow> tried evs = []"
  by (rule tried_plain) (rule attempt_plain)

lemma tried_handler:
  assumes "handle_runtime_error a m i b v = Return hs out \<or>
           handle_runtime_error a m i b v = Retry hs v'"
  shows "tried hs = []"
  unfolding tried_def
proof (rule map_filter_none)
  fix e
  assume "e \<in> set hs"
  from handler_events [OF assms this]
  show "(case snd (snd e) of Try x \<Rightarrow> Some (fst e, x) | _ \<Rightarrow> None) = None"
    by auto
qed

lemma tried_simps:
  "tried [] = []"
  "tried ((a, s, Try x) # tr) = (a, x) # tried tr"
  "tried ((a, s, Caught e j) # tr) = tried tr"
  "tried ((a, s, PrintParams hp) # tr) = tried tr"
  "tried (xs @ ys) = tried xs @ tried ys"
  by (simp_all add: tried_def map_filter_append)

lemma halving_sequence:
  assumes "train_loop hp w a i b v = Some (tr, out)"
  shows "tried tr = map (\<lambda>k. (a + k, b / 2 ^ k)) [0..<length (tried tr)]"
  using assms
proof (induction rule: train_loop_induct)
  case (exit a i b v)
  then show ?case by (simp add: tried_simps)
next
  case (finished a i b v evs r out)
  then show ?case by (simp add: tried_simps tried_attempt)
next
  case (propagated a i b v evs m j v')
  then show ?case by (simp add: tried_simps tried_attempt)
next
  case (returned a i b v evs m j v' hs out)
  have "tried hs = []"
    using returned.hyps(3) by (auto intro: tried_handler)
  with returned.hyps(2) show ?case by (simp add: tried_simps tried_attempt)
next
  case (retried a i b v evs m j v' hs v'' tr' out)
  have "tried hs = []"
    using retried.hyps(3) by (auto intro: tried_handler)
  with retried.hyps(2) have "tried ((a, None, Try b) # evs @
          (a, None, Caught (RuntimeError m) (case j of None \<Rightarrow> i | Some k \<Rightarrow> Some k)) # hs @ tr')
        = (a, b) # tried tr'"
    by (simp add: tried_simps tried_attempt)
  moreover have "(a, b) # map (\<lambda>k. (Suc a + k, b / 2 / 2 ^ k)) [0..<length (tried tr')] =
      map (\<lambda>k. (a + k, b / 2 ^ k)) [0..<Suc (length (tried tr'))]"
    by (simp add: map_upt_Suc del: upt_Suc)
  ultimately show ?case
    using retried.IH by simp
qed

lemma pow2_le_512: "1 \<le> (512::real) / 2 ^ a \<Longrightarrow> a \<le> 9"
proof -
  assume "1 \<le> (512::real) / 2 ^ a"
  then have "(2::real) ^ a \<le> 2 ^ 9"
    by (simp add: field_simps)
  then show "a \<le> 9"
    by (simp only: power_increasing_iff)
qed

lemma attempts_bounded:
  assumes "train_loop hp w a i b v = Some (tr, out)" and "b = 512 / 2 ^ a" and "1 \<le> b"
  shows "a + length (tried tr) \<le> 10"
  using assms
proof (induction rule: train_loop_induct)
  case (exit a i b v)
  then show ?case by simp
next
  case (finished a i b v evs r out)
  then show ?case
    using pow2_le_512 [of a] by (simp add: tried_simps tried_attempt)
next
  case (propagated a i b v evs m j v')
  then show ?case
    using pow2_le_512 [of a] by (simp add: tried_simps tried_attempt)
next
  case (returned a i b v evs m j v' hs out)
  have "tried hs = []"
    using returned.hyps(3) by (auto intro: tried_handler)
  with returned show ?case
    using pow2_le_512 [of a] by (simp add: tried_simps tried_attempt)
next
  case (retried a i b v evs m j v' hs v'' tr' out)
  have "tried hs = []"
    using retried.hyps(3) by (auto intro: tried_handler)
  moreover have "Suc a + length (tried tr') \<le> 10"
    using retried.IH retried.prems handler_retry(2) [OF retried.hyps(3)] by simp
  ultimately show ?case
    using retried.hyps(2) by (simp add: tried_simps tried_attempt)
qed

lemma attempt_no_halve:
  assumes "attempt hp w a b v = Some (evs, r)"
  shows "(a', s, Halve x) \<notin> set evs"
  using attempt_plain [OF assms, of "(a', s, Halve x)"] by (auto simp: plain_event_def)

lemma halve_events:
  assumes "train_loop hp w a i b v = Some (tr, out)" and "b = c / 2 ^ a"
    and "(a', s, Halve x) \<in> set tr"
  shows "x = c / 2 ^ Suc a' \<and>
         (x < 1 \<longrightarrow> out = OomFatal \<and>
            (\<exists>pre. tr = pre @
               [(a', s, Halve x),
                (a', None, Print ''This configuration does not fit into memory, exiting...''),
                (a', None, Score 27000)]))"
  using assms
proof (induction rule: train_loop_induct)
  case (exit a i b v)
  then show ?case by simp
next
  case (finished a i b v evs r out)
  then show ?case
    using attempt_no_halve [of hp w a b v evs r] by auto
next
  case (propagated a i b v evs m j v')
  then show ?case
    using attempt_no_halve [of hp w a b v evs] by auto
next
  case (returned a i b v evs m j v' hs out)
  let ?i = "case j of None \<Rightarrow> i | Some k \<Rightarrow> Some k"
  from returned.prems(2) attempt_no_halve [OF returned.hyps(2)]
  have mem: "(a', s, Halve x) \<in> set hs"
    by auto
  from handler_return [OF returned.hyps(3)] mem
  consider
    (fatal) "out = OomFatal" "b / 2 < 1"
      "hs = [(a, None, Halve (b / 2)),
             (a, None, Print ''This configuration does not fit into memory, exiting...''),
             (a, None, Score 27000)]"
  | (unbound) "1 \<le> b / 2" "hs = [(a, None, Halve (b / 2)), (a, None, PrintHalving (b / 2))]"
    by auto
  then show ?case
  proof cases
    case fatal
    with mem have eq: "a' = a" "s = None" "x = b / 2"
      by auto
    have "(a, None, Try b) # evs @ (a, None, Caught (RuntimeError m) ?i) # hs =
          ((a, None, Try b) # evs @ [(a, None, Caught (RuntimeError m) ?i)]) @ hs"
      by simp
    with fatal eq returned.prems(1) show ?thesis
      by (auto simp del: append_Cons)
  next
    case unbound
    with mem have eq: "a' = a" "s = None" "x = b / 2"
      by auto
    with unbound returned.prems(1) show ?thesis
      by simp
  qed
next
  case (retried a i b v evs m j v' hs v'' tr' out)
  let ?i = "case j of None \<Rightarrow> i | Some k \<Rightarrow> Some k"
  from retried.prems(2) attempt_no_halve [OF retried.hyps(2)]
  consider (here) "(a', s, Halve x) \<in> set hs" | (later) "(a', s, Halve x) \<in> set tr'"
    by auto
  then show ?case
  proof cases
    case here
    with handler_retry(1,2) [OF retried.hyps(3)] have "a' = a" "x = b / 2" "1 \<le> x"
      by auto
    with retried.prems(1) show ?thesis
      by simp
  next
    case later
    from retried.prems(1) have "b / 2 = c / 2 ^ Suc a"
      by simp
    from retried.IH [OF this later] have
      x: "x = c / 2 ^ Suc a'"
      by (rule conjunct1)
    from retried.IH [OF \<open>b / 2 = c / 2 ^ Suc a\<close> later] have
      f: "x < 1 \<longrightarrow> out = OomFatal \<and>
            (\<exists>pre. tr' = pre @
               [(a', s, Halve x),
                (a', None, Print ''This configuration does not fit into memory, exiting...''),
                (a', None, Score 27000)])"
      by (rule conjunct2)
    show ?thesis
    proof (intro conjI impI)
      show "x = c / 2 ^ Suc a'"
        by (rule x)
    next
      assume "x < 1"
      with f show "out = OomFatal"
        by simp
    next
      assume "x < 1"
      with f obtain pre where "tr' = pre @
               [(a', s, Halve x),
                (a', None, Print ''This configuration does not fit into memory, exiting...''),
                (a', None, Score 27000)]"
        by blast
      then have "(a, None, Try b) # evs @ (a, None, Caught (RuntimeError m) ?i) # hs @ tr' =
          ((a, None, Try b) # evs @ (a, None, Caught (RuntimeError m) ?i) # hs @ pre) @
               [(a', s, Halve x),
                (a', None, Print ''This configuration does not fit into memory, exiting...''),
                (a', None, Score 27000)]"
        by simp
      then show "\<exists>pre. (a, None, Try b) # evs @ (a, None, Caught (RuntimeError m) ?i) # hs @ tr' =
          pre @
               [(a', s, Halve x),
                (a', None, Print ''This configuration does not fit into memory, exiting...''),
                (a', None, Score 27000)]"
        by blast
    qed
  qed
qed

text \<open>The run in which memory runs out in every attempt.\<close>

lemma int_batch_size_bounds:
  fixes b :: real
  assumes "1 \<le> b" and "b \<le> 512"
  shows "1 \<le> nat \<lfloor>b\<rfloor>" and "nat \<lfloor>b\<rfloor> \<le> 512"
proof -
  have lo: "(1::int) \<le> \<lfloor>b\<rfloor>"
    using assms(1) by (simp add: le_floor_iff)
  have "\<lfloor>b\<rfloor> \<le> \<lfloor>512::real\<rfloor>"
    using assms(2) by (rule floor_mono)
  then have hi: "\<lfloor>b\<rfloor> \<le> 512"
    by simp
  from lo show "1 \<le> nat \<lfloor>b\<rfloor>"
    by linarith
  from hi show "nat \<lfloor>b\<rfloor> \<le> 512"
    by linarith
qed

lemma all_oom_attempt:
  assumes "1 \<le> b" and "b \<le> 512"
  shows "attempt hp all_oom_world a b v =
     Some ([(a, None, Loader (nat \<lfloor>b\<rfloor>))],
           Raised (RuntimeError ''CUDA out of memory'') None BoundNone)"
proof -
  have "0 < 512 div nat \<lfloor>b\<rfloor>"
    using int_batch_size_bounds [OF assms] assms(1) by (simp add: div_greater_zero_iff)
  then show ?thesis
    using assms
    by (simp add: attempt_def all_oom_world_def quiet_world_def setup_fault_in_def
        sample_data_some)
qed

lemma all_oom_outcome: "run_outcome (train hp all_oom_world) = Some OomFatal"
  by (simp add: train_def train_loop.simps all_oom_attempt handle_runtime_error_def Let_def
      run_outcome_def)

lemma all_oom_tried:
  "tried (run_trace (train hp all_oom_world)) =
     [(0, 512), (1, 256), (2, 128), (3, 64), (4, 32), (5, 16), (6, 8), (7, 4), (8, 2), (9, 1)]"
  by (simp add: train_def train_loop.simps all_oom_attempt handle_runtime_error_def Let_def
      run_trace_def tried_simps tried_def)

subsection \<open>The steps of an attempt, and termination\<close>

lemma steps_begun_append: "steps_begun a (xs @ ys) = steps_begun a xs @ steps_begun a ys"
  by (simp add: steps_begun_def map_filter_append)

lemma steps_begun_step: "steps_begun a' (step_events w a i g) = (if a' = a then [i] else [])"
  by (simp add: steps_begun_def step_events_def)

lemma steps_begun_steps:
  "steps_begun a' (steps_events w a g xs) = (if a' = a then xs else [])"
  by (induction xs) (simp_all add: steps_begun_append steps_begun_step, simp add: steps_begun_def)

lemma steps_begun_prefix:
  assumes "prefix evs (step_events w a i g)"
  shows "length (steps_begun a' evs) \<le> 1"
proof -
  from assms obtain rest where "step_events w a i g = evs @ rest"
    by (auto simp: prefix_def)
  then have "steps_begun a' (step_events w a i g) = steps_begun a' evs @ steps_begun a' rest"
    by (simp add: steps_begun_append)
  then have "length (steps_begun a' evs) \<le> length (steps_begun a' (step_events w a i g))"
    by simp
  then show ?thesis
    by (simp add: steps_begun_step split: if_splits)
qed

lemma steps_begun_other:
  "steps_begun a' (setup_events hp a b) = []"
  "steps_begun a' (nan_exit_events a i) = []"
  "steps_begun a' [] = []"
  "steps_begun a' [(a, None, x)] = []"
  by (simp_all add: steps_begun_def setup_events_def nan_exit_events_def)

lemma upt_decomp_length:
  assumes "[0..<n] = pre @ i # post"
  shows "Suc (length pre) \<le> n"
proof -
  have "length [0..<n] = length (pre @ i # post)"
    using assms by simp
  then show ?thesis
    by simp
qed

lemma attempt_steps:
  assumes "attempt hp w a b v = Some (evs, r)"
  shows "length (steps_begun a' evs) \<le> num_iters"
proof (cases r)
  case Completed
  with assms have "attempt hp w a b v = Some (evs, Completed)"
    by simp
  from attempt_completed(1) [OF this] show ?thesis
    by (simp add: steps_begun_append steps_begun_steps steps_begun_other)
next
  case NanAborted
  with assms obtain pre post i where
    d: "[0..<num_iters] = pre @ i # post" and
    ev: "evs = setup_events hp a b @ steps_events w a True pre @ step_events w a i True @
           nan_exit_events a i"
    using attempt_nan by blast
  from upt_decomp_length [OF d] ev show ?thesis
    by (simp add: steps_begun_append steps_begun_steps steps_begun_step steps_begun_other)
next
  case (Raised x j v')
  show ?thesis
  proof (cases j)
    case None
    with Raised assms have "evs = [] \<or> evs = [(a, None, Loader (nat \<lfloor>b\<rfloor>))]"
      using attempt_raised_setup by blast
    then show ?thesis
      by (auto simp: steps_begun_other)
  next
    case (Some i)
    with Raised assms obtain pre post evs_i where
      d: "[0..<num_iters] = pre @ i # post" and
      ev: "evs = setup_events hp a b @ steps_events w a True pre @ evs_i" and
      pf: "prefix evs_i (step_events w a i True)"
      using attempt_raised_step(1) by blast
    from upt_decomp_length [OF d] ev steps_begun_prefix [OF pf, of a'] show ?thesis
      by (auto simp: steps_begun_append steps_begun_steps steps_begun_other)
  qed
qed

lemma steps_begun_none:
  assumes "\<And>e. e \<in> set tr \<Longrightarrow> fst e \<noteq> a'"
  shows "steps_begun a' tr = []"
  unfolding steps_begun_def
proof (rule map_filter_none)
  fix e
  assume "e \<in> set tr"
  then have "fst e \<noteq> a'"
    by (rule assms)
  then show "(case e of (a, Some i, ModeTrain) \<Rightarrow> if a = a' then Some i else None
              | (a, Some i, _) \<Rightarrow> None | (a, None, _) \<Rightarrow> None) = None"
    by (auto split: prod.splits option.splits action.splits)
qed

lemma steps_begun_handler:
  assumes "handle_runtime_error a m i b v = Return hs out \<or>
           handle_runtime_error a m i b v = Retry hs v'"
  shows "steps_begun a' hs = []"
  unfolding steps_begun_def
proof (rule map_filter_none)
  fix e
  assume "e \<in> set hs"
  from handler_events [OF assms this]
  show "(case e of (a, Some i, ModeTrain) \<Rightarrow> if a = a' then Some i else None
              | (a, Some i, _) \<Rightarrow> None | (a, None, _) \<Rightarrow> None) = None"
    by (auto split: prod.splits option.splits action.splits)
qed

lemma steps_begun_Cons:
  "steps_begun a' ((a, None, x) # tr) = steps_begun a' tr"
  by (simp add: steps_begun_def)

lemma loop_steps:
  assumes "train_loop hp w a i b v = Some (tr, out)"
  shows "length (steps_begun a' tr) \<le> num_iters"
  using assms
proof (induction rule: train_loop_induct)
  case (exit a i b v)
  then show ?case by (simp add: steps_begun_other)
next
  case (finished a i b v evs r out)
  then show ?case
    using attempt_steps [of hp w a b v evs r a'] by (simp add: steps_begun_Cons)
next
  case (propagated a i b v evs m j v')
  then show ?case
    using attempt_steps [of hp w a b v evs _ a'] by (simp add: steps_begun_Cons)
next
  case (returned a i b v evs m j v' hs out)
  have "steps_begun a' hs = []"
    using returned.hyps(3) by (auto intro: steps_begun_handler)
  then show ?case
    using attempt_steps [OF returned.hyps(2), of a']
    by (simp add: steps_begun_Cons steps_begun_append)
next
  case (retried a i b v evs m j v' hs v'' tr' out)
  have hs: "steps_begun a' hs = []"
    using retried.hyps(3) by (auto intro: steps_begun_handler)
  show ?case
  proof (cases "a' = a")
    case True
    have "steps_begun a' tr' = []"
    proof (rule steps_begun_none)
      fix e
      assume "e \<in> set tr'"
      with train_loop_stamps [OF retried.hyps(4)] have "Suc a \<le> fst e"
        by simp
      with True show "fst e \<noteq> a'"
        by simp
    qed
    with hs show ?thesis
      using attempt_steps [OF retried.hyps(2), of a']
      by (simp add: steps_begun_Cons steps_begun_append)
  next
    case False
    have "steps_begun a' evs = []"
    proof (rule steps_begun_none)
      fix e
      assume "e \<in> set evs"
      with attempt_plain [OF retried.hyps(2)] have "fst e = a"
        by (simp add: plain_event_def)
      with False show "fst e \<noteq> a'"
        by simp
    qed
    with hs show ?thesis
      using retried.IH by (simp add: steps_begun_Cons steps_begun_append)
  qed
qed

lemma loop_returns:
  assumes "\<forall>n. 1 \<le> n \<and> n \<le> 512 \<longrightarrow> 0 < loader_len w n" and "b \<le> 512"
  shows "\<exists>r. train_loop hp w a i b v = Some r"
  using assms
proof (induction hp w a i b v rule: train_loop.induct)
  case (1 hp w a i b v)
  note loader = "1.prems"(1)
  show ?case
  proof (cases "1 \<le> b")
    case False
    then show ?thesis
      by (simp add: train_loop.simps [of hp w a i b v])
  next
    case True
    with "1.prems"(2) have "1 \<le> nat \<lfloor>b\<rfloor> \<and> nat \<lfloor>b\<rfloor> \<le> 512"
      using int_batch_size_bounds [of b] by simp
    with loader have "0 < loader_len w (nat \<lfloor>b\<rfloor>)"
      by blast
    then obtain evs r where att: "attempt hp w a b v = Some (evs, r)"
      using attempt_returns [of w b hp a v] by auto
    show ?thesis
    proof (cases r)
      case Completed
      with True att show ?thesis
        by (simp add: train_loop.simps [of hp w a i b v])
    next
      case NanAborted
      with True att show ?thesis
        by (simp add: train_loop.simps [of hp w a i b v])
    next
      case (Raised e j v')
      show ?thesis
      proof (cases e)
        case (OtherError m)
        with True att Raised show ?thesis
          by (simp add: train_loop.simps [of hp w a i b v])
      next
        case (RuntimeError m)
        let ?i = "case j of None \<Rightarrow> i | Some k \<Rightarrow> Some k"
        show ?thesis
        proof (cases "handle_runtime_error a m ?i b v'")
          case (Return hs out)
          with True att Raised RuntimeError show ?thesis
            by (simp add: train_loop.simps [of hp w a i b v] Let_def)
        next
          case (Retry hs v'')
          have "b / 2 \<le> 512"
            using "1.prems" True by simp
          from "1.IH" [OF True att refl Raised RuntimeError refl refl Retry loader this]
          obtain r' where "train_loop hp w (Suc a) ?i (b / 2) v'' = Some r'"
            by blast
          with True att Raised RuntimeError Retry show ?thesis
            by (simp add: train_loop.simps [of hp w a i b v] Let_def split: prod.splits)
        qed
      qed
    qed
  qed
qed

lemma all_oom_last_halving:
  "(9, None, Halve (1 / 2)) \<in> set (run_trace (train hp all_oom_world))"
  by (simp add: train_def train_loop.simps all_oom_attempt handle_runtime_error_def Let_def
      run_trace_def)

lemma small_dataset_hangs: "train hp small_dataset_world = None"
proof -
  have "attempt hp small_dataset_world 0 512 Unbound = None"
    by (rule attempt_hangs) (simp_all add: small_dataset_world_def quiet_world_def)
  then show ?thesis
    by (simp add: train_def train_loop.simps [of hp small_dataset_world 0])
qed

subsection \<open>The modes in which the network runs\<close>

lemma loop_modes:
  assumes "train_loop hp w a i b v = Some (tr, out)" and "(a', s, x) \<in> set tr"
  shows "(x = Reconstruct t g \<or> x = Generate t g \<or> x = Fid t g \<longrightarrow> \<not> g \<and> \<not> t) \<and>
         (x = Forward t g \<or> x = Update t g \<longrightarrow> t \<and> g)"
  using assms
proof (induction rule: train_loop_induct)
  case (exit a i b v)
  then show ?case by simp
next
  case (finished a i b v evs r out)
  then show ?case
    using attempt_plain [of hp w a b v evs r "(a', s, x)"] by (auto simp: plain_event_def)
next
  case (propagated a i b v evs m j v')
  then show ?case
    using attempt_plain [of hp w a b v evs _ "(a', s, x)"] by (auto simp: plain_event_def)
next
  case (returned a i b v evs m j v' hs out)
  then show ?case
    using attempt_plain [of hp w a b v evs _ "(a', s, x)"]
      handler_events [of a m _ b v' hs out _ "(a', s, x)"]
    by (auto simp: plain_event_def)
next
  case (retried a i b v evs m j v' hs v'' tr' out)
  then show ?case
    using attempt_plain [of hp w a b v evs _ "(a', s, x)"]
      handler_events [of a m _ b v' hs _ v'' "(a', s, x)"]
    by (auto simp: plain_event_def)
qed

text \<open>The run in which nothing fails.\<close>

lemma quiet_attempt:
  "attempt hp quiet_world 0 512 v =
     Some (setup_events hp 0 512 @ steps_events quiet_world 0 True [0..<num_iters] @
           [(0, None, Score (weighted_scores (map (score quiet_world 0) (sampled [0..<num_iters]))))],
           Completed)"
  by (rule attempt_clean_trace) (simp_all add: quiet_world_def)

lemma quiet_run:
  "train hp quiet_world =
     Some ((0, None, PrintParams hp) # (0, None, Try 512) #
           setup_events hp 0 512 @ steps_events quiet_world 0 True [0..<num_iters] @
           [(0, None, Score (weighted_scores (map (score quiet_world 0) (sampled [0..<num_iters]))))],
           Success)"
  by (simp add: train_def train_loop.simps [of _ _ 0] quiet_attempt)

lemma quiet_step_0:
  "step_events quiet_world 0 0 True =
     [(0, Some 0, ModeTrain), (0, Some 0, Forward True True), (0, Some 0, Loss False),
      (0, Some 0, Update True True), (0, Some 0, Telemetry), (0, Some 0, ModeEval),
      (0, Some 0, Reconstruct False False), (0, Some 0, Generate False False),
      (0, Some 0, Fid False False), (0, Some 0, Score 0)]"
  by (simp add: step_events_def qual_due_iff quant_due_iff past_half_iff quiet_world_def score_def)

lemma quiet_run_step_0:
  "e \<in> set (step_events quiet_world 0 0 True) \<Longrightarrow> e \<in> set (run_trace (train hp quiet_world))"
proof -
  assume "e \<in> set (step_events quiet_world 0 0 True)"
  moreover have "0 \<in> set [0..<num_iters]"
    by (simp add: num_iters_def)
  ultimately have "e \<in> set (steps_events quiet_world 0 True [0..<num_iters])"
    unfolding steps_events_set by blast
  then show ?thesis
    by (simp add: quiet_run run_trace_def)
qed

subsection \<open>A NaN loss\<close>

lemma step_events_stamp:
  "(a', s, x) \<in> set (step_events w a i g) \<Longrightarrow> a' = a \<and> s = Some i"
  by (auto simp: step_events_def split: if_splits)

lemma step_events_loss:
  "(a', s, Loss True) \<in> set (step_events w a i g) \<Longrightarrow> loss_isnan w a i"
  by (auto simp: step_events_def split: if_splits)

lemma setup_events_step: "(a', Some i, x) \<notin> set (setup_events hp a b)"
  by (simp add: setup_events_def)

lemma nan_exit_events_stamp:
  "(a', s, x) \<in> set (nan_exit_events a i) \<Longrightarrow> a' = a \<and> s = Some i \<and> x \<noteq> Loss True"
  by (auto simp: nan_exit_events_def)

lemma attempt_loss_nan:
  assumes "attempt hp w a b v = Some (evs, r)" and "(a', Some i, Loss True) \<in> set evs"
  shows "r \<noteq> Completed"
    and "r = NanAborted \<Longrightarrow>
           last evs = (a, Some i, Score 27000) \<and>
           (\<forall>a'' i' x. (a'', Some i', x) \<in> set evs \<longrightarrow> i' \<le> i)"
proof -
  show "r \<noteq> Completed"
  proof
    assume "r = Completed"
    with assms(1) have c: "attempt hp w a b v = Some (evs, Completed)"
      by simp
    from attempt_completed(1) [OF c] assms(2)
    have "(a', Some i, Loss True) \<in> set (steps_events w a True [0..<num_iters])"
      by (auto simp: setup_events_def)
    then obtain k where "k < num_iters" and "(a', Some i, Loss True) \<in> set (step_events w a k True)"
      by (auto simp: steps_events_set)
    with step_events_loss attempt_completed(2) [OF c] show False
      by blast
  qed
next
  assume "r = NanAborted"
  with assms(1) obtain pre post k where
    d: "[0..<num_iters] = pre @ k # post" and
    ev: "evs = setup_events hp a b @ steps_events w a True pre @ step_events w a k True @
           nan_exit_events a k" and
    clean: "\<forall>j\<in>set pre. \<not> loss_isnan w a j"
    using attempt_nan by blast
  have not_pre: "(a', Some i, Loss True) \<notin> set (steps_events w a True pre)"
  proof
    assume "(a', Some i, Loss True) \<in> set (steps_events w a True pre)"
    then obtain j where "j \<in> set pre" and "(a', Some i, Loss True) \<in> set (step_events w a j True)"
      by (auto simp: steps_events_set)
    with step_events_loss clean show False
      by blast
  qed
  from ev assms(2) not_pre have "(a', Some i, Loss True) \<in> set (step_events w a k True)"
    using nan_exit_events_stamp [of a' "Some i" "Loss True" a k]
    by (auto simp: setup_events_def)
  then have ik: "i = k"
    using step_events_stamp by blast
  have last: "last evs = (a, Some i, Score 27000)"
    using ev ik by (simp add: nan_exit_events_def)
  have "i' \<le> i" if mem: "(a'', Some i', x) \<in> set evs" for a'' i' x
  proof -
    from mem ev consider "(a'', Some i', x) \<in> set (steps_events w a True pre)"
      | "(a'', Some i', x) \<in> set (step_events w a k True)"
      | "(a'', Some i', x) \<in> set (nan_exit_events a k)"
      by (auto simp: setup_events_def)
    then show ?thesis
    proof cases
      case 1
      then obtain j where "j \<in> set pre" and "(a'', Some i', x) \<in> set (step_events w a j True)"
        by (auto simp: steps_events_set)
      with step_events_stamp [of a'' "Some i'" x w a j True] upt_decomp(2) [OF d] ik
      show ?thesis
        by auto
    next
      case 2
      with step_events_stamp [of a'' "Some i'" x w a k True] ik show ?thesis
        by simp
    next
      case 3
      with nan_exit_events_stamp [of a'' "Some i'" x a k] ik show ?thesis
        by simp
    qed
  qed
  with last show "last evs = (a, Some i, Score 27000) \<and>
           (\<forall>a'' i' x. (a'', Some i', x) \<in> set evs \<longrightarrow> i' \<le> i)"
    by blast
qed

lemma attempt_stamp:
  assumes "attempt hp w a b v = Some (evs, r)" and "(a', s, x) \<in> set evs"
  shows "a' = a"
  using attempt_plain [OF assms] by (simp add: plain_event_def)

lemma handler_no_loss:
  assumes "handle_runtime_error a m i b v = Return hs out \<or>
           handle_runtime_error a m i b v = Retry hs v'"
  shows "(a', Some i', x) \<notin> set hs"
  using handler_events [OF assms, of "(a', Some i', x)"] by auto

lemma nan_loop:
  assumes "train_loop hp w a i b v = Some (tr, out)"
    and "(a0, Some i0, Loss True) \<in> set tr"
    and "\<forall>e j. (a0, None, Caught e j) \<notin> set tr"
    and "\<forall>e. out \<noteq> Propagated e"
  shows "out = NanAbort \<and> last tr = (a0, Some i0, Score 27000) \<and>
         (\<forall>a' i' x. (a', Some i', x) \<in> set tr \<longrightarrow> a' < a0 \<or> a' = a0 \<and> i' \<le> i0)"
  using assms
proof (induction rule: train_loop_induct)
  case (exit a i b v)
  then show ?case by simp
next
  case (finished a i b v evs r out)
  from finished.prems(1) have mem: "(a0, Some i0, Loss True) \<in> set evs"
    by simp
  from attempt_stamp [OF finished.hyps(2) mem] have a0: "a0 = a" .
  from attempt_loss_nan(1) [OF finished.hyps(2) mem] finished.hyps(3)
  have r: "r = NanAborted" and out: "out = NanAbort"
    by simp_all
  from attempt_loss_nan(2) [OF finished.hyps(2) mem r] have
    last: "last evs = (a, Some i0, Score 27000)" and
    le: "\<forall>a'' i' x. (a'', Some i', x) \<in> set evs \<longrightarrow> i' \<le> i0"
    by simp_all
  from mem have "evs \<noteq> []"
    by auto
  with last have "last ((a, None, Try b) # evs) = (a0, Some i0, Score 27000)"
    using a0 by simp
  moreover have "a' < a0 \<or> a' = a0 \<and> i' \<le> i0"
    if "(a', Some i', x) \<in> set ((a, None, Try b) # evs)" for a' i' x
  proof -
    from that have m: "(a', Some i', x) \<in> set evs"
      by simp
    from attempt_stamp [OF finished.hyps(2) m] le m a0 show ?thesis
      by blast
  qed
  ultimately show ?case
    using out by blast
next
  case (propagated a i b v evs m j v')
  then show ?case by simp
next
  case (returned a i b v evs m j v' hs out)
  let ?i = "case j of None \<Rightarrow> i | Some k \<Rightarrow> Some k"
  from returned.prems(1) handler_no_loss [of a m ?i b v' hs out _ a0 i0 "Loss True"]
    returned.hyps(3)
  have mem: "(a0, Some i0, Loss True) \<in> set evs"
    by auto
  from attempt_stamp [OF returned.hyps(2) mem] have "a0 = a" .
  with returned.prems(2) show ?case
    by auto
next
  case (retried a i b v evs m j v' hs v'' tr' out)
  let ?i = "case j of None \<Rightarrow> i | Some k \<Rightarrow> Some k"
  have not_here: "(a0, Some i0, Loss True) \<notin> set evs"
  proof
    assume mem: "(a0, Some i0, Loss True) \<in> set evs"
    from attempt_stamp [OF retried.hyps(2) mem] have "a0 = a" .
    with retried.prems(2) show False
      by auto
  qed
  with retried.prems(1) handler_no_loss [of a m ?i b v' hs _ v'' a0 i0 "Loss True"]
    retried.hyps(3)
  have mem: "(a0, Some i0, Loss True) \<in> set tr'"
    by auto
  from train_loop_stamps [OF retried.hyps(4) mem] have a0: "Suc a \<le> a0"
    by simp
  from retried.prems(2) have "\<forall>e j. (a0, None, Caught e j) \<notin> set tr'"
    by auto
  from retried.IH [OF mem this retried.prems(3)] have
    out: "out = NanAbort" and
    last: "last tr' = (a0, Some i0, Score 27000)" and
    le: "\<forall>a' i' x. (a', Some i', x) \<in> set tr' \<longrightarrow> a' < a0 \<or> a' = a0 \<and> i' \<le> i0"
    by simp_all
  from mem have "tr' \<noteq> []"
    by auto
  with last have "last ((a, None, Try b) # evs @ (a, None, Caught (RuntimeError m) ?i) # hs @ tr')
      = (a0, Some i0, Score 27000)"
    by simp
  moreover have "a' < a0 \<or> a' = a0 \<and> i' \<le> i0"
    if m: "(a', Some i', x) \<in> set ((a, None, Try b) # evs @
              (a, None, Caught (RuntimeError m) ?i) # hs @ tr')" for a' i' x
  proof -
    from m handler_no_loss [of a m ?i b v' hs _ v'' a' i' x] retried.hyps(3)
    consider "(a', Some i', x) \<in> set evs" | "(a', Some i', x) \<in> set tr'"
      by auto
    then show ?thesis
    proof cases
      case 1
      from attempt_stamp [OF retried.hyps(2) 1] a0 show ?thesis
        by simp
    next
      case 2
      with le show ?thesis
        by blast
    qed
  qed
  ultimately show ?case
    using out by blast
qed

text \<open>The runs with a NaN loss.\<close>

lemma nan_attempt:
  "attempt hp nan_world 0 512 v =
     Some (setup_events hp 0 512 @ steps_events nan_world 0 True [0..<10000] @
           step_events nan_world 0 10000 True @ nan_exit_events 0 10000, NanAborted)"
  by (rule attempt_nan_at) (simp_all add: nan_world_def quiet_world_def num_iters_def)

lemma nan_run:
  "train hp nan_world =
     Some ((0, None, PrintParams hp) # (0, None, Try 512) #
           setup_events hp 0 512 @ steps_events nan_world 0 True [0..<10000] @
           step_events nan_world 0 10000 True @ nan_exit_events 0 10000, NanAbort)"
  by (simp add: train_def train_loop.simps [of _ _ 0] nan_attempt)

lemma nan_step:
  "step_events nan_world 0 10000 True =
     [(0, Some 10000, ModeTrain), (0, Some 10000, Forward True True), (0, Some 10000, Loss True),
      (0, Some 10000, Update True True), (0, Some 10000, Telemetry), (0, Some 10000, ModeEval),
      (0, Some 10000, Reconstruct False False), (0, Some 10000, Generate False False),
      (0, Some 10000, Fid False False), (0, Some 10000, Score 0),
      (0, Some 10000, Append 0)]"
  by (simp add: step_events_def qual_due_iff quant_due_iff past_half_iff nan_world_def
      quiet_world_def score_def)

lemma nan_run_no_caught: "(a, None, Caught e j) \<notin> set (run_trace (train hp nan_world))"
proof
  assume "(a, None, Caught e j) \<in> set (run_trace (train hp nan_world))"
  then have "(a, None, Caught e j) \<in> set (steps_events nan_world 0 True [0..<10000])"
    by (simp add: nan_run run_trace_def setup_events_def nan_step nan_exit_events_def)
  then show False
    using step_events_stamp by (fastforce simp: steps_events_set)
qed

lemma nan_then_oom_attempt_0:
  "attempt hp nan_then_oom_world 0 512 v =
     Some (setup_events hp 0 512 @ steps_events nan_then_oom_world 0 True [0..<0] @
           [(0, Some 0, ModeTrain), (0, Some 0, Forward True True), (0, Some 0, Loss True),
            (0, Some 0, Update True True), (0, Some 0, Telemetry), (0, Some 0, ModeEval),
            (0, Some 0, Reconstruct False False), (0, Some 0, Generate False False)],
           Raised (RuntimeError ''CUDA out of memory'') (Some 0) Built)"
  by (rule attempt_raise_at)
    (simp_all add: nan_then_oom_world_def quiet_world_def num_iters_def train_step_def
      vae_train_def vae_eval_def no_grad_def sample_data_some fault_in_def qual_probe_def
      quant_probe_def qual_due_iff quant_due_iff Let_def)

lemma nan_then_oom_attempt_1:
  "attempt hp nan_then_oom_world (Suc 0) 256 v =
     Some (setup_events hp (Suc 0) 256 @ steps_events nan_then_oom_world (Suc 0) True [0..<Suc 0] @
           [(Suc 0, Some (Suc 0), ModeTrain)],
           Raised (RuntimeError ''unspecified launch failure'') (Some (Suc 0)) Built)"
  by (rule attempt_raise_at)
    (simp_all add: nan_then_oom_world_def quiet_world_def num_iters_def train_step_def
      sample_data_some fault_in_def)

lemma nan_then_oom_step:
  "step_events nan_then_oom_world (Suc 0) 0 True =
     [(Suc 0, Some 0, ModeTrain), (Suc 0, Some 0, Forward True True), (Suc 0, Some 0, Loss False),
      (Suc 0, Some 0, Update True True), (Suc 0, Some 0, Telemetry), (Suc 0, Some 0, ModeEval),
      (Suc 0, Some 0, Reconstruct False False), (Suc 0, Some 0, Generate False False),
      (Suc 0, Some 0, Fid False False), (Suc 0, Some 0, Score 0)]"
  by (simp add: step_events_def qual_due_iff quant_due_iff past_half_iff
      nan_then_oom_world_def quiet_world_def score_def)

lemma nan_then_oom_run:
  "train hp nan_then_oom_world =
     Some ([(0, None, PrintParams hp), (0, None, Try 512),
            (0, None, Loader 512), (0, None, Model (hidden_dims hp)),
            (0, Some 0, ModeTrain), (0, Some 0, Forward True True), (0, Some 0, Loss True),
            (0, Some 0, Update True True), (0, Some 0, Telemetry), (0, Some 0, ModeEval),
            (0, Some 0, Reconstruct False False), (0, Some 0, Generate False False),
            (0, None, Caught (RuntimeError ''CUDA out of memory'') (Some 0)),
            (0, None, Halve 256), (0, None, PrintHalving 256), (0, None, Release),
            (Suc 0, None, Try 256),
            (Suc 0, None, Loader 256), (Suc 0, None, Model (hidden_dims hp)),
            (Suc 0, Some 0, ModeTrain), (Suc 0, Some 0, Forward True True),
            (Suc 0, Some 0, Loss False), (Suc 0, Some 0, Update True True),
            (Suc 0, Some 0, Telemetry), (Suc 0, Some 0, ModeEval),
            (Suc 0, Some 0, Reconstruct False False), (Suc 0, Some 0, Generate False False),
            (Suc 0, Some 0, Fid False False), (Suc 0, Some 0, Score 0),
            (Suc 0, Some (Suc 0), ModeTrain),
            (Suc 0, None, Caught (RuntimeError ''unspecified launch failure'') (Some (Suc 0))),
            (Suc 0, None, Print ''unspecified launch failure'')],
           OtherFatal)"
  by (simp add: train_def train_loop.simps [of _ _ 0] train_loop.simps [of _ _ "Suc 0"]
      nan_then_oom_attempt_0 nan_then_oom_attempt_1 nan_then_oom_step
      handle_runtime_error_def Let_def setup_events_def)

subsection \<open>The samples of a completed attempt\<close>

lemma sampled_steps: "sampled [0..<num_iters] = [10000, 12000, 14000, 16000, 18000, 19999]"
proof (rule sorted_distinct_set_unique)
  show "sorted (sampled [0..<num_iters])"
    unfolding sampled_def by (simp add: sorted_wrt_filter)
  show "distinct (sampled [0..<num_iters])"
    unfolding sampled_def by simp
  show "sorted [10000, 12000, 14000, 16000, 18000, 19999::nat]"
    by simp
  show "distinct [10000, 12000, 14000, 16000, 18000, 19999::nat]"
    by simp
  show "set (sampled [0..<num_iters]) = set [10000, 12000, 14000, 16000, 18000, 19999]"
  proof (intro equalityI subsetI)
    fix i
    assume "i \<in> set (sampled [0..<num_iters])"
    then have lt: "i < 20000" and due: "i mod 2000 = 0 \<or> i = 19999" and half: "10000 \<le> i"
      by (simp_all add: sampled_def num_iters_def quant_due_iff past_half_iff)
    from due show "i \<in> set [10000, 12000, 14000, 16000, 18000, 19999]"
    proof
      assume "i mod 2000 = 0"
      then obtain k where k: "i = 2000 * k"
        by (auto simp: mod_eq_0_iff_dvd)
      with lt half have "5 \<le> k" and "k < 10"
        by simp_all
      then have "k = 5 \<or> k = 6 \<or> k = 7 \<or> k = 8 \<or> k = 9"
        by linarith
      with k show ?thesis
        by auto
    next
      assume "i = 19999"
      then show ?thesis
        by simp
    qed
  next
    fix i :: nat
    assume "i \<in> set [10000, 12000, 14000, 16000, 18000, 19999]"
    then have "i = 10000 \<or> i = 12000 \<or> i = 14000 \<or> i = 16000 \<or> i = 18000 \<or> i = 19999"
      by simp
    then show "i \<in> set (sampled [0..<num_iters])"
      by (auto simp: sampled_def num_iters_def quant_due_iff past_half_iff)
  qed
qed

lemma appended_append: "appended a (xs @ ys) = appended a xs @ appended a ys"
  by (simp add: appended_def map_filter_append)

lemma appended_step:
  "appended a (step_events w a i g) =
     (if quant_due i \<and> past_half i then [(i, score w a i)] else [])"
  by (simp add: appended_def step_events_def)

lemma appended_steps:
  "appended a (steps_events w a g xs) = map (\<lambda>i. (i, score w a i)) (sampled xs)"
  by (induction xs) (simp_all add: appended_append appended_step sampled_def, simp add: appended_def)

lemma appended_other:
  "appended a [] = []"
  "appended a (setup_events hp a b) = []"
  "appended a [(a', None, x)] = []"
  "appended a ((a', None, x) # tr) = appended a tr"
  by (simp_all add: appended_def setup_events_def)

lemma appended_none:
  assumes "\<And>e. e \<in> set tr \<Longrightarrow> fst e \<noteq> a"
  shows "appended a tr = []"
  unfolding appended_def
proof (rule map_filter_none)
  fix e
  assume "e \<in> set tr"
  then have "fst e \<noteq> a"
    by (rule assms)
  then show "(case e of (a', Some i, Append x) \<Rightarrow> if a' = a then Some (i, x) else None
              | (a', Some i, _) \<Rightarrow> None | (a', None, _) \<Rightarrow> None) = None"
    by (auto split: prod.splits option.splits action.splits)
qed

lemma attempt_appended:
  assumes "attempt hp w a b v = Some (evs, Completed)"
  shows "appended a evs =
           map (\<lambda>i. (i, score w a i)) [10000, 12000, 14000, 16000, 18000, 19999]"
  using attempt_completed(1) [OF assms]
  by (simp add: appended_append appended_steps appended_other sampled_steps)

text \<open>
  A run that ends in \<open>Success\<close> or \<open>NanAbort\<close> ends with the events of the attempt that
  completed or aborted; everything before belongs to earlier attempts.
\<close>

lemma last_attempt:
  assumes "train_loop hp w a i b v = Some (tr, out)" and "out = Success \<or> out = NanAbort"
  shows "\<exists>a' b' v' evs pre. a \<le> a' \<and>
           attempt hp w a' b' v' = Some (evs, if out = Success then Completed else NanAborted) \<and>
           tr = pre @ (a', None, Try b') # evs \<and> (\<forall>e\<in>set pre. fst e < a')"
  using assms
proof (induction rule: train_loop_induct)
  case (exit a i b v)
  then show ?case by simp
next
  case (finished a i b v evs r out)
  from finished.hyps(2,3) have
    "attempt hp w a b v = Some (evs, if out = Success then Completed else NanAborted)"
    by auto
  then have "a \<le> a \<and>
      attempt hp w a b v = Some (evs, if out = Success then Completed else NanAborted) \<and>
      (a, None, Try b) # evs = [] @ (a, None, Try b) # evs \<and> (\<forall>e\<in>set []. fst e < a)"
    by simp
  then show ?case by blast
next
  case (propagated a i b v evs m j v')
  then show ?case by simp
next
  case (returned a i b v evs m j v' hs out)
  from handler_return [OF returned.hyps(3)] returned.prems show ?case
    by auto
next
  case (retried a i b v evs m j v' hs v'' tr' out)
  let ?i = "case j of None \<Rightarrow> i | Some k \<Rightarrow> Some k"
  let ?head = "(a, None, Try b) # evs @ (a, None, Caught (RuntimeError m) ?i) # hs"
  from retried.IH [OF retried.prems] obtain a' b' v1 evs' pre where
    le: "Suc a \<le> a'" and
    att: "attempt hp w a' b' v1 = Some (evs', if out = Success then Completed else NanAborted)" and
    tr': "tr' = pre @ (a', None, Try b') # evs'" and
    pre: "\<forall>e\<in>set pre. fst e < a'"
    by blast
  have head: "fst e < a'" if "e \<in> set ?head" for e
  proof -
    from that handler_events [of a m ?i b v' hs _ v'' e] retried.hyps(3)
      attempt_plain [OF retried.hyps(2), of e]
    have "fst e = a"
      by (auto simp: plain_event_def)
    with le show ?thesis
      by simp
  qed
  have "a \<le> a' \<and>
      attempt hp w a' b' v1 = Some (evs', if out = Success then Completed else NanAborted) \<and>
      (a, None, Try b) # evs @ (a, None, Caught (RuntimeError m) ?i) # hs @ tr' =
        (?head @ pre) @ (a', None, Try b') # evs' \<and>
      (\<forall>e\<in>set (?head @ pre). fst e < a')"
    using le att tr' pre head by auto
  then show ?case by blast
qed

lemma train_last_attempt:
  assumes "train hp w = Some (tr, out)" and "out = Success \<or> out = NanAbort"
  shows "\<exists>a b v evs pre.
           attempt hp w a b v = Some (evs, if out = Success then Completed else NanAborted) \<and>
           tr = pre @ (a, None, Try b) # evs \<and> appended a pre = []"
proof -
  from assms(1) obtain tr0 where
    loop: "train_loop hp w 0 None 512 Unbound = Some (tr0, out)" and
    tr: "tr = (0, None, PrintParams hp) # tr0"
    by (auto simp: train_def split: option.splits)
  from last_attempt [OF loop assms(2)] obtain a b v evs pre where
    att: "attempt hp w a b v = Some (evs, if out = Success then Completed else NanAborted)" and
    tr0: "tr0 = pre @ (a, None, Try b) # evs" and
    pre: "\<forall>e\<in>set pre. fst e < a"
    by blast
  have "appended a pre = []"
    using pre by (intro appended_none) auto
  then have "appended a ((0, None, PrintParams hp) # pre) = []"
    by (simp add: appended_other)
  moreover have "tr = ((0, None, PrintParams hp) # pre) @ (a, None, Try b) # evs"
    using tr tr0 by simp
  ultimately show ?thesis
    using att by blast
qed

subsection \<open>The weights of the final score\<close>

lemma sqrt_weights_length: "length (sqrt_weights n) = n"
  by (simp add: sqrt_weights_def del: upt_Suc)

lemma sqrt_weights_nth: "k < n \<Longrightarrow> sqrt_weights n ! k = sqrt (real (k + 1))"
  by (simp add: sqrt_weights_def add.commute del: upt_Suc)

lemma sqrt_weights_sum: "sum_list (sqrt_weights n) = (\<Sum>j<n. sqrt (real (j + 1)))"
proof -
  have "sum_list (sqrt_weights n) = (\<Sum>j = 0..<n. sqrt_weights n ! j)"
    using sum_list_sum_nth [of "sqrt_weights n"] by (simp only: sqrt_weights_length)
  also have "\<dots> = (\<Sum>j = 0..<n. sqrt (real (j + 1)))"
    by (rule sum.cong) (simp_all only: sqrt_weights_nth atLeastLessThan_iff)
  finally show ?thesis
    by (simp only: atLeast0LessThan)
qed

lemma sqrt_weights_sum_pos:
  assumes "0 < n"
  shows "0 < (\<Sum>j<n. sqrt (real (j + 1)))"
proof (rule sum_pos)
  show "finite {..<n}"
    by simp
  show "{..<n} \<noteq> {}"
    using assms by auto
  show "0 < sqrt (real (j + 1))" for j
    by simp
qed

lemma weights_nth:
  assumes "k < n"
  shows "normalized (sqrt_weights n) ! k = sqrt (real (k + 1)) / (\<Sum>j<n. sqrt (real (j + 1)))"
proof -
  from assms have "normalized (sqrt_weights n) ! k = sqrt_weights n ! k / sum_list (sqrt_weights n)"
    by (simp add: normalized_def sqrt_weights_length)
  then show ?thesis
    using assms by (simp only: sqrt_weights_nth sqrt_weights_sum)
qed

lemma weights_length: "length (normalized (sqrt_weights n)) = n"
  by (simp add: normalized_def sqrt_weights_length)

lemma weights_sum:
  assumes "0 < n"
  shows "sum_list (normalized (sqrt_weights n)) = 1"
proof -
  have "sum_list (normalized (sqrt_weights n)) = (\<Sum>k = 0..<n. normalized (sqrt_weights n) ! k)"
    using sum_list_sum_nth [of "normalized (sqrt_weights n)"] by (simp add: weights_length)
  also have "\<dots> = (\<Sum>k = 0..<n. sqrt (real (k + 1)) / (\<Sum>j<n. sqrt (real (j + 1))))"
    by (rule sum.cong) (simp_all only: weights_nth atLeastLessThan_iff)
  also have "\<dots> = (\<Sum>k<n. sqrt (real (k + 1))) / (\<Sum>j<n. sqrt (real (j + 1)))"
    by (simp only: sum_divide_distrib atLeast0LessThan)
  also have "\<dots> = 1"
    using sqrt_weights_sum_pos [OF assms] by (simp only: divide_self_if) simp
  finally show ?thesis .
qed

lemma weights_sorted: "sorted (normalized (sqrt_weights n))"
proof (cases "n = 0")
  case True
  then show ?thesis
    by (simp add: normalized_def sqrt_weights_def)
next
  case False
  then have pos: "0 < (\<Sum>j<n. sqrt (real (j + 1)))"
    by (intro sqrt_weights_sum_pos) simp
  show ?thesis
    unfolding sorted_iff_nth_mono
  proof (intro allI impI)
    fix i j
    assume "i \<le> j" and "j < length (normalized (sqrt_weights n))"
    then have j: "j < n" and i: "i < n"
      by (simp_all add: weights_length)
    have "sqrt (real (i + 1)) \<le> sqrt (real (j + 1))"
      using \<open>i \<le> j\<close> by simp
    then have "sqrt (real (i + 1)) / (\<Sum>j<n. sqrt (real (j + 1))) \<le>
        sqrt (real (j + 1)) / (\<Sum>j<n. sqrt (real (j + 1)))"
      using pos by (intro divide_right_mono) simp_all
    then show "normalized (sqrt_weights n) ! i \<le> normalized (sqrt_weights n) ! j"
      using i j by (simp only: weights_nth)
  qed
qed

lemma weighted_scores_sum:
  "weighted_scores sc = (\<Sum>k<length sc. normalized (sqrt_weights (length sc)) ! k * sc ! k)"
proof -
  let ?ws = "normalized (sqrt_weights (length sc))"
  let ?zs = "map (\<lambda>(x, v). x * v) (zip ?ws sc)"
  have len: "length ?zs = length sc"
    by (simp add: weights_length)
  have "weighted_scores sc = sum_list ?zs"
    by (simp add: weighted_scores_def)
  also have "\<dots> = (\<Sum>k = 0..<length sc. ?zs ! k)"
    using sum_list_sum_nth [of ?zs] len by simp
  also have "\<dots> = (\<Sum>k = 0..<length sc. ?ws ! k * sc ! k)"
    by (rule sum.cong) (simp_all add: weights_length)
  finally show ?thesis
    by (simp add: atLeast0LessThan)
qed

section \<open>The claims\<close>

text \<open>
  C1, as the code has it. When the handler is entered with the step index \<open>i\<close> above
  10000, whatever the message of the error, \<open>train\<close> returns at once (line 300): that is
  the outcome, and the catch is the last event of the run. So there is no retry, and
  nothing is reported after the exception, in particular no penalty score.
\<close>

theorem cutoff_returns_without_score:
  assumes "(a, s, Caught e (Some j)) \<in> set (run_trace (train hp w))" and "10000 < j"
  shows "run_outcome (train hp w) = Some CutoffReturn
       \<and> last (run_trace (train hp w)) = (a, s, Caught e (Some j))"
proof -
  from assms(1) obtain tr out where
    loop: "train_loop hp w 0 None 512 Unbound = Some (tr, out)" and
    run: "train hp w = Some ((0, None, PrintParams hp) # tr, out)"
    by (auto simp: train_def run_trace_def split: option.splits)
  from assms(1) run have mem: "(a, s, Caught e (Some j)) \<in> set tr"
    by (simp add: run_trace_def)
  from cutoff_loop [OF loop mem assms(2)] mem run show ?thesis
    by (auto simp: run_trace_def run_outcome_def)
qed

text \<open>The theorem at the run whose memory runs out in step 15000.\<close>

theorem cutoff_returns_without_score_witness:
  "run_outcome (train hp_example late_oom_world) = Some CutoffReturn
   \<and> last (run_trace (train hp_example late_oom_world)) =
       (0, None, Caught (RuntimeError ''CUDA out of memory'') (Some 15000))"
  by (rule cutoff_returns_without_score) (simp_all add: late_oom_run run_trace_def)

text \<open>
  C1 as stated fails at that run: memory runs out at step 15000, \<open>train\<close> returns without
  a retry, and the score 27000 is reported nowhere in the run.
\<close>

theorem late_oom_reports_no_penalty:
  "run_outcome (train hp_example late_oom_world) = Some CutoffReturn
   \<and> last (run_trace (train hp_example late_oom_world)) =
       (0, None, Caught (RuntimeError ''CUDA out of memory'') (Some 15000))
   \<and> Score 27000 \<notin> set (actions (run_trace (train hp_example late_oom_world)))"
proof -
  have "Score 27000 \<notin> set (actions (steps_events late_oom_world 0 True [0..<15000]))"
  proof
    assume "Score 27000 \<in> set (actions (steps_events late_oom_world 0 True [0..<15000]))"
    then obtain i where "(27000::real) = score late_oom_world 0 i"
      using steps_events_score by blast
    then show False
      by (simp add: score_def late_oom_world_def quiet_world_def)
  qed
  then show ?thesis
    by (simp add: late_oom_run run_trace_def run_outcome_def actions_def setup_events_def)
qed

text \<open>
  C2. The attempts of a run are numbered from 0 in the order they are made, and attempt
  \<open>k\<close>, the one after \<open>k\<close> retries, is entered with \<open>batch_size = 512 / 2^k\<close>. The halving
  in attempt \<open>a\<close> yields \<open>512 / 2^(a+1)\<close>; when that is below 1 the run ends there: it
  returns from line 308 and its trace ends with the halving, the message and the penalty
  score 27000, so that no further attempt is made.
\<close>

theorem batch_size_halving:
  assumes "train hp w = Some (tr, out)"
  shows "tried tr = map (\<lambda>k. (k, 512 / 2 ^ k)) [0..<length (tried tr)]
       \<and> (\<forall>a s x. (a, s, Halve x) \<in> set tr \<longrightarrow>
            x = 512 / 2 ^ Suc a \<and>
            (x < 1 \<longrightarrow> out = OomFatal \<and>
               (\<exists>pre. tr = pre @
                  [(a, s, Halve x),
                   (a, None, Print ''This configuration does not fit into memory, exiting...''),
                   (a, None, Score 27000)])))"
proof -
  from assms obtain tr0 where
    loop: "train_loop hp w 0 None 512 Unbound = Some (tr0, out)" and
    tr: "tr = (0, None, PrintParams hp) # tr0"
    by (auto simp: train_def split: option.splits)
  have "tried tr = map (\<lambda>k. (k, 512 / 2 ^ k)) [0..<length (tried tr)]"
    using halving_sequence [OF loop] tr by (simp add: tried_simps)
  moreover have "x = 512 / 2 ^ Suc a \<and>
            (x < 1 \<longrightarrow> out = OomFatal \<and>
               (\<exists>pre. tr = pre @
                  [(a, s, Halve x),
                   (a, None, Print ''This configuration does not fit into memory, exiting...''),
                   (a, None, Score 27000)]))"
    if mem: "(a, s, Halve x) \<in> set tr" for a s x
  proof -
    from mem tr have mem0: "(a, s, Halve x) \<in> set tr0"
      by simp
    have "(512::real) = 512 / 2 ^ 0"
      by simp
    from halve_events [OF loop this mem0] have
      x: "x = 512 / 2 ^ Suc a" and
      f: "x < 1 \<longrightarrow> out = OomFatal \<and>
               (\<exists>pre. tr0 = pre @
                  [(a, s, Halve x),
                   (a, None, Print ''This configuration does not fit into memory, exiting...''),
                   (a, None, Score 27000)])"
      by blast+
    show ?thesis
    proof (intro conjI impI)
      show "x = 512 / 2 ^ Suc a"
        by (rule x)
    next
      assume "x < 1"
      with f show "out = OomFatal"
        by simp
    next
      assume "x < 1"
      with f obtain pre where "tr0 = pre @
                  [(a, s, Halve x),
                   (a, None, Print ''This configuration does not fit into memory, exiting...''),
                   (a, None, Score 27000)]"
        by blast
      with tr have "tr = ((0, None, PrintParams hp) # pre) @
                  [(a, s, Halve x),
                   (a, None, Print ''This configuration does not fit into memory, exiting...''),
                   (a, None, Score 27000)]"
        by simp
      then show "\<exists>pre. tr = pre @
                  [(a, s, Halve x),
                   (a, None, Print ''This configuration does not fit into memory, exiting...''),
                   (a, None, Score 27000)]"
        by blast
    qed
  qed
  ultimately show ?thesis
    by blast
qed

text \<open>The theorem at the run in which memory runs out in every attempt.\<close>

theorem batch_size_halving_witness:
  "run_outcome (train hp_example all_oom_world) = Some OomFatal
   \<and> tried (run_trace (train hp_example all_oom_world)) =
       [(0, 512), (1, 256), (2, 128), (3, 64), (4, 32), (5, 16), (6, 8), (7, 4), (8, 2), (9, 1)]"
proof -
  from all_oom_last_halving [of hp_example] obtain tr out where
    run: "train hp_example all_oom_world = Some (tr, out)" and
    mem: "(9, None, Halve (1 / 2)) \<in> set tr"
    by (cases "train hp_example all_oom_world") (auto simp: run_trace_def)
  from batch_size_halving [OF run] mem have "out = OomFatal"
    by force
  with run show ?thesis
    using all_oom_tried [of hp_example] by (simp add: run_outcome_def)
qed

text \<open>
  C3, as the code has it. If the loss of step \<open>i\<close> of attempt \<open>a\<close> is NaN and no exception
  is raised in that attempt (its handler is not entered and no exception leaves \<open>train\<close>),
  the run returns from line 289, its last event is the penalty score 27000 reported in
  that step, and no later step runs: every event of a step is of an earlier attempt, or of
  a step of this attempt up to \<open>i\<close>.
\<close>

theorem nan_abort:
  assumes "(a, Some i, Loss True) \<in> set (run_trace (train hp w))"
    and "\<forall>e j. (a, None, Caught e j) \<notin> set (run_trace (train hp w))"
    and "\<forall>e. run_outcome (train hp w) \<noteq> Some (Propagated e)"
  shows "run_outcome (train hp w) = Some NanAbort
       \<and> last (run_trace (train hp w)) = (a, Some i, Score 27000)
       \<and> (\<forall>a' i' x. (a', Some i', x) \<in> set (run_trace (train hp w)) \<longrightarrow>
            a' < a \<or> a' = a \<and> i' \<le> i)"
proof -
  from assms(1) obtain tr out where
    loop: "train_loop hp w 0 None 512 Unbound = Some (tr, out)" and
    run: "train hp w = Some ((0, None, PrintParams hp) # tr, out)"
    by (auto simp: train_def run_trace_def split: option.splits)
  from assms(1) run have mem: "(a, Some i, Loss True) \<in> set tr"
    by (simp add: run_trace_def)
  from assms(2) run have nc: "\<forall>e j. (a, None, Caught e j) \<notin> set tr"
    by (simp add: run_trace_def)
  from assms(3) run have np: "\<forall>e. out \<noteq> Propagated e"
    by (simp add: run_outcome_def)
  from nan_loop [OF loop mem nc np] have
    out: "out = NanAbort" and
    last: "last tr = (a, Some i, Score 27000)" and
    le: "\<forall>a' i' x. (a', Some i', x) \<in> set tr \<longrightarrow> a' < a \<or> a' = a \<and> i' \<le> i"
    by simp_all
  from mem have "tr \<noteq> []"
    by auto
  with run out last le show ?thesis
    by (auto simp: run_trace_def run_outcome_def)
qed

text \<open>The theorem at the run whose loss is NaN in step 10000.\<close>

theorem nan_abort_witness:
  "run_outcome (train hp_example nan_world) = Some NanAbort
   \<and> last (run_trace (train hp_example nan_world)) = (0, Some 10000, Score 27000)"
proof -
  have mem: "(0, Some 10000, Loss True) \<in> set (run_trace (train hp_example nan_world))"
    by (simp add: nan_run run_trace_def nan_step)
  have nc: "\<forall>e j. (0, None, Caught e j) \<notin> set (run_trace (train hp_example nan_world))"
    using nan_run_no_caught by blast
  have np: "\<forall>e. run_outcome (train hp_example nan_world) \<noteq> Some (Propagated e)"
    by (simp add: nan_run run_outcome_def)
  from nan_abort [OF mem nc np] show ?thesis
    by blast
qed

text \<open>
  C3 as stated fails when the step whose loss is NaN raises before the test of line 286.
  Here \<open>vae_fid\<close> runs out of memory in step 0, whose loss is NaN: the batch size is
  halved, a second attempt trains on, and the score 27000 is reported nowhere in the run.
\<close>

theorem nan_step_that_raises_is_retried:
  "(0, Some 0, Loss True) \<in> set (run_trace (train hp_example nan_then_oom_world))
   \<and> (1, Some 0, Update True True) \<in> set (run_trace (train hp_example nan_then_oom_world))
   \<and> Score 27000 \<notin> set (actions (run_trace (train hp_example nan_then_oom_world)))
   \<and> run_outcome (train hp_example nan_then_oom_world) = Some OtherFatal"
  by (simp add: nan_then_oom_run run_trace_def run_outcome_def actions_def)

text \<open>
  C4. A run that ends in success ends with the final score of the attempt \<open>a\<close> that
  completed. The samples of that attempt are the scores of the steps 10000, 12000, 14000,
  16000, 18000 and 19999, in this order; the final score is the sum over \<open>k < 6\<close> of the
  \<open>k\<close>-th weight times the \<open>k\<close>-th sample; the \<open>k\<close>-th weight is \<open>sqrt (k + 1)\<close> over the
  sum of \<open>sqrt 1\<close> to \<open>sqrt 6\<close>; and the six weights sum to 1 and are in increasing order.
\<close>

theorem final_score_weighted:
  assumes "train hp w = Some (tr, Success)"
  shows "\<exists>a. appended a tr =
               map (\<lambda>i. (i, score w a i)) [10000, 12000, 14000, 16000, 18000, 19999]
           \<and> last tr =
               (a, None, Score (\<Sum>k<6. normalized (sqrt_weights 6) ! k * snd (appended a tr ! k)))
           \<and> (\<forall>k<6. normalized (sqrt_weights 6) ! k =
                        sqrt (real (k + 1)) / (\<Sum>j<6. sqrt (real (j + 1))))
           \<and> length (normalized (sqrt_weights 6)) = 6
           \<and> sum_list (normalized (sqrt_weights 6)) = 1
           \<and> sorted (normalized (sqrt_weights 6))"
proof -
  let ?steps = "[10000, 12000, 14000, 16000, 18000, 19999] :: nat list"
  from train_last_attempt [OF assms] obtain a b v evs pre where
    att: "attempt hp w a b v = Some (evs, Completed)" and
    tr: "tr = pre @ (a, None, Try b) # evs" and
    pre: "appended a pre = []"
    by auto
  have app: "appended a tr = map (\<lambda>i. (i, score w a i)) ?steps"
    using tr pre attempt_appended [OF att] by (simp add: appended_append appended_other)
  have "last tr = (a, None, Score (weighted_scores (map (score w a) ?steps)))"
    using tr attempt_completed(1) [OF att] by (simp add: sampled_steps)
  also have "weighted_scores (map (score w a) ?steps) =
      (\<Sum>k<6. normalized (sqrt_weights 6) ! k * map (score w a) ?steps ! k)"
  proof -
    have len: "length (map (score w a) ?steps) = 6"
      by simp
    show ?thesis
      using weighted_scores_sum [of "map (score w a) ?steps"] unfolding len .
  qed
  also have "\<dots> = (\<Sum>k<6. normalized (sqrt_weights 6) ! k * snd (appended a tr ! k))"
  proof (rule sum.cong)
    fix k :: nat
    assume "k \<in> {..<6}"
    then have "k < length ?steps"
      by simp
    then have "snd (appended a tr ! k) = map (score w a) ?steps ! k"
      unfolding app by (simp only: nth_map snd_conv)
    then show "normalized (sqrt_weights 6) ! k * map (score w a) ?steps ! k =
        normalized (sqrt_weights 6) ! k * snd (appended a tr ! k)"
      by simp
  qed simp
  finally have last:
    "last tr = (a, None, Score (\<Sum>k<6. normalized (sqrt_weights 6) ! k * snd (appended a tr ! k)))" .
  have nth: "\<forall>k<6. normalized (sqrt_weights 6) ! k =
                        sqrt (real (k + 1)) / (\<Sum>j<6. sqrt (real (j + 1)))"
    using weights_nth [of _ 6] by blast
  from app last nth weights_length [of 6] weights_sum [of 6] weights_sorted [of 6]
  show ?thesis
    by (intro exI [of _ a] conjI) simp_all
qed

text \<open>The theorem at the run in which nothing fails and every score is 0.\<close>

theorem final_score_weighted_witness:
  "\<exists>tr a. train hp_example quiet_world = Some (tr, Success) \<and> last tr = (a, None, Score 0)"
proof -
  obtain tr where run: "train hp_example quiet_world = Some (tr, Success)"
    by (simp add: quiet_run)
  from final_score_weighted [OF run] obtain a where
    app: "appended a tr =
            map (\<lambda>i. (i, score quiet_world a i)) [10000, 12000, 14000, 16000, 18000, 19999]" and
    last: "last tr =
            (a, None, Score (\<Sum>k<6. normalized (sqrt_weights 6) ! k * snd (appended a tr ! k)))"
    by blast
  have "(\<Sum>k<6. normalized (sqrt_weights 6) ! k * snd (appended a tr ! k)) = (\<Sum>k<6::nat. 0)"
  proof (rule sum.cong)
    fix k :: nat
    assume "k \<in> {..<6}"
    then have "k < length [10000, 12000, 14000, 16000, 18000, 19999::nat]"
      by simp
    then have "snd (appended a tr ! k) = 0"
      unfolding app by (simp only: nth_map snd_conv) (simp add: score_def quiet_world_def)
    then show "normalized (sqrt_weights 6) ! k * snd (appended a tr ! k) = 0"
      by simp
  qed simp
  with last have "last tr = (a, None, Score 0)"
    by simp
  with run show ?thesis
    by blast
qed

text \<open>
  C5, as the code has it. If the loader yields at least one batch per pass for every batch
  size from 1 to 512, \<open>train\<close> returns; the run has made at most 10 attempts, and no
  attempt of it has begun more than 20000 steps.
\<close>

theorem train_terminates:
  assumes "\<forall>n. 1 \<le> n \<and> n \<le> 512 \<longrightarrow> 0 < loader_len w n"
  shows "\<exists>tr out. train hp w = Some (tr, out) \<and> length (tried tr) \<le> 10
           \<and> (\<forall>a. length (steps_begun a tr) \<le> 20000)"
proof -
  from loop_returns [OF assms, of 512 hp 0 None Unbound] obtain tr0 out where
    loop: "train_loop hp w 0 None 512 Unbound = Some (tr0, out)"
    by auto
  then have run: "train hp w = Some ((0, None, PrintParams hp) # tr0, out)"
    by (simp add: train_def)
  have "0 + length (tried tr0) \<le> 10"
    by (rule attempts_bounded [OF loop]) simp_all
  then have "length (tried ((0, None, PrintParams hp) # tr0)) \<le> 10"
    by (simp add: tried_simps)
  moreover have "length (steps_begun a ((0, None, PrintParams hp) # tr0)) \<le> 20000" for a
    using loop_steps [OF loop, of a] by (simp add: steps_begun_Cons num_iters_def)
  ultimately show ?thesis
    using run by blast
qed

text \<open>The theorem at the world in which nothing fails.\<close>

theorem train_terminates_witness:
  "\<exists>tr out. train hp_example quiet_world = Some (tr, out) \<and> length (tried tr) \<le> 10
     \<and> length (steps_begun 0 tr) \<le> 20000"
proof -
  have "\<forall>n. 1 \<le> n \<and> n \<le> 512 \<longrightarrow> 0 < loader_len quiet_world n"
    by (simp add: quiet_world_def div_greater_zero_iff)
  from train_terminates [OF this, of hp_example] show ?thesis
    by blast
qed

text \<open>
  C5 as stated fails twice. When memory runs out in every attempt there are 10 attempts,
  for the batch sizes 512 down to 1: one more than \<open>log2 512 = 9\<close>. And on a dataset of 100
  images the loader of batch size 512 yields no batch, \<open>next(loader)\<close> never returns, and
  neither does \<open>train\<close>.
\<close>

theorem ten_attempts_or_none:
  "length (tried (run_trace (train hp_example all_oom_world))) = 10
   \<and> train hp_example small_dataset_world = None"
  by (simp add: all_oom_tried small_dataset_hangs)

text \<open>
  C6, as the code has it. Every action of the two probes (the reconstruction, the
  generation, the call of \<open>vae_fid\<close>) runs with gradient recording off and with the
  training flag cleared, and every forward pass and update of training runs with the flag
  set, by the \<open>vae.train()\<close> that opens each step, and with gradient recording on. No
  probe restores training mode. When the qualitative probe completes, the flag is cleared
  and gradient recording is as it was before the probe. Around the quantitative probe
  \<open>train\<close> does not set the flag: when that probe completes, the flag is what \<open>vae_fid\<close>
  made of the one it was entered with, and gradient recording is as it was. So a step that
  goes on to the next ends with the flag set only if no probe was due in it, cleared if
  only the qualitative probe was, and as \<open>vae_fid\<close> left it, entered with the flag
  cleared, if the quantitative probe was due.
\<close>

theorem probes_run_in_eval_mode:
  "((a, s, x) \<in> set (run_trace (train hp w)) \<longrightarrow>
      (x = Reconstruct t g \<or> x = Generate t g \<or> x = Fid t g \<longrightarrow> \<not> g \<and> \<not> t) \<and>
      (x = Forward t g \<or> x = Update t g \<longrightarrow> t \<and> g))
   \<and> (qual_due i \<and> qual_probe w a i st = (qs, Inr st1) \<longrightarrow>
        \<not> training st1 \<and> grad st1 = grad st)
   \<and> (quant_due i \<and> quant_probe w a i st = (vs, Inr st2) \<longrightarrow>
        training st2 = fid_sets_training w a i (training st) \<and> grad st2 = grad st)
   \<and> (train_step w a n i st = Some (evs, Next st3) \<longrightarrow>
        grad st3 = grad st \<and>
        training st3 = (if quant_due i then fid_sets_training w a i False else \<not> qual_due i))"
proof (intro conjI impI)
  assume mem: "(a, s, x) \<in> set (run_trace (train hp w))"
  then obtain tr out where
    loop: "train_loop hp w 0 None 512 Unbound = Some (tr, out)" and
    run: "train hp w = Some ((0, None, PrintParams hp) # tr, out)"
    by (auto simp: train_def run_trace_def split: option.splits)
  from mem run consider "x = PrintParams hp" | "(a, s, x) \<in> set tr"
    by (auto simp: run_trace_def)
  then have modes: "(x = Reconstruct t g \<or> x = Generate t g \<or> x = Fid t g \<longrightarrow> \<not> g \<and> \<not> t) \<and>
         (x = Forward t g \<or> x = Update t g \<longrightarrow> t \<and> g)"
  proof cases
    case 1
    then show ?thesis by simp
  next
    case 2
    with loop show ?thesis by (rule loop_modes)
  qed
  {
    assume "x = Reconstruct t g \<or> x = Generate t g \<or> x = Fid t g"
    with modes show "\<not> g" and "\<not> t"
      by simp_all
  }
  {
    assume "x = Forward t g \<or> x = Update t g"
    with modes show "t" and "g"
      by simp_all
  }
next
  assume "qual_due i \<and> qual_probe w a i st = (qs, Inr st1)"
  then have "st1 = st\<lparr>training := False\<rparr>"
    by (auto dest!: qual_probe_cases)
  then show "\<not> training st1" and "grad st1 = grad st"
    by simp_all
next
  assume "quant_due i \<and> quant_probe w a i st = (vs, Inr st2)"
  then have "st2 = st\<lparr>training := fid_sets_training w a i (training st),
                       scores := scores st @ [score w a i]\<rparr>
           \<or> st2 = st\<lparr>training := fid_sets_training w a i (training st)\<rparr>"
    by (auto dest!: quant_probe_cases)
  then show "training st2 = fid_sets_training w a i (training st)" and "grad st2 = grad st"
    by auto
next
  assume step: "train_step w a n i st = Some (evs, Next st3)"
  show "grad st3 = grad st"
    by (rule train_step_next(3) [OF step])
  show "training st3 = (if quant_due i then fid_sets_training w a i False else \<not> qual_due i)"
    by (rule train_step_next(5) [OF step])
qed

text \<open>
  The theorem at the run in which nothing fails, at the probes of step 0 and at step 1000,
  in which only the qualitative probe is due.
\<close>

theorem probes_run_in_eval_mode_witness:
  "(0, Some 0, Fid False False) \<in> set (run_trace (train hp_example quiet_world))
   \<and> (0, Some 0, Forward True True) \<in> set (run_trace (train hp_example quiet_world))
   \<and> (\<exists>qs st1. qual_probe quiet_world 0 0
                  \<lparr>training = True, grad = True, scores = [], pos = 1\<rparr> = (qs, Inr st1)
               \<and> \<not> training st1 \<and> grad st1)
   \<and> (\<exists>vs st2. quant_probe quiet_world 0 0
                  \<lparr>training = False, grad = True, scores = [], pos = 1\<rparr> = (vs, Inr st2)
               \<and> \<not> training st2 \<and> grad st2)
   \<and> (\<exists>evs st3. train_step quiet_world 0 1 1000
                   \<lparr>training = True, grad = True, scores = [], pos = 0\<rparr> = Some (evs, Next st3)
               \<and> \<not> training st3 \<and> grad st3)"
proof -
  let ?run = "run_trace (train hp_example quiet_world)"
  let ?trn = "\<lparr>training = True, grad = True, scores = [], pos = 1\<rparr>"
  let ?evl = "\<lparr>training = False, grad = True, scores = [], pos = 1\<rparr>"
  let ?fresh = "\<lparr>training = True, grad = True, scores = [], pos = 0\<rparr>"
  obtain t g where fid: "(0, Some 0, Fid t g) \<in> set ?run"
    using quiet_run_step_0 [of "(0, Some 0, Fid False False)"] by (auto simp: quiet_step_0)
  obtain t' g' where fwd: "(0, Some 0, Forward t' g') \<in> set ?run"
    using quiet_run_step_0 [of "(0, Some 0, Forward True True)"] by (auto simp: quiet_step_0)
  obtain qs st1 where q: "qual_probe quiet_world 0 0 ?trn = (qs, Inr st1)"
    by (simp add: qual_probe_def qual_due_iff fault_in_def quiet_world_def Let_def)
  obtain vs st2 where v: "quant_probe quiet_world 0 0 ?evl = (vs, Inr st2)"
    by (simp add: quant_probe_def quant_due_iff past_half_iff fault_in_def quiet_world_def Let_def)
  obtain evs st3 where step: "train_step quiet_world 0 1 1000 ?fresh = Some (evs, Next st3)"
    using train_step_clean [of 1 quiet_world 0 1000 ?fresh] by (auto simp: quiet_world_def)
  have "\<not> t" and "\<not> g"
    using probes_run_in_eval_mode
      [where a = 0 and s = "Some 0" and x = "Fid t g" and t = t and g = g
        and hp = hp_example and w = quiet_world] fid
    by simp_all
  with fid have p1: "(0, Some 0, Fid False False) \<in> set ?run"
    by simp
  have "t'" and "g'"
    using probes_run_in_eval_mode
      [where a = 0 and s = "Some 0" and x = "Forward t' g'" and t = t' and g = g'
        and hp = hp_example and w = quiet_world] fwd
    by simp_all
  with fwd have p2: "(0, Some 0, Forward True True) \<in> set ?run"
    by simp
  have "\<not> training st1 \<and> grad st1"
    using probes_run_in_eval_mode
      [where w = quiet_world and a = 0 and i = 0 and st = ?trn and qs = qs and ?st1.0 = st1] q
    by (simp add: qual_due_iff)
  with q have p3: "\<exists>qs st1. qual_probe quiet_world 0 0 ?trn = (qs, Inr st1)
      \<and> \<not> training st1 \<and> grad st1"
    by blast
  have "\<not> training st2 \<and> grad st2"
    using probes_run_in_eval_mode
      [where w = quiet_world and a = 0 and i = 0 and st = ?evl and vs = vs and ?st2.0 = st2] v
    by (simp add: quant_due_iff quiet_world_def)
  with v have p4: "\<exists>vs st2. quant_probe quiet_world 0 0 ?evl = (vs, Inr st2)
      \<and> \<not> training st2 \<and> grad st2"
    by blast
  have "\<not> training st3 \<and> grad st3"
    using probes_run_in_eval_mode
      [where w = quiet_world and a = 0 and n = 1 and i = 1000 and st = ?fresh and evs = evs
        and ?st3.0 = st3] step
    by (simp add: qual_due_iff quant_due_iff)
  with step have p5: "\<exists>evs st3. train_step quiet_world 0 1 1000 ?fresh = Some (evs, Next st3)
      \<and> \<not> training st3 \<and> grad st3"
    by blast
  show ?thesis
    by (intro conjI) (rule p1, rule p2, rule p3, rule p4, rule p5)
qed

text \<open>
  C6 as stated fails: no probe puts the model back into training mode. In step 0
  \<open>vae_fid\<close> is called with the flag as the qualitative probe left it, cleared; and step
  1000, in which only the qualitative probe is due, ends with the flag cleared.
\<close>

theorem qualitative_probe_leaves_eval_mode:
  "(0, Some 0, Fid False False) \<in> set (run_trace (train hp_example quiet_world))
   \<and> map_option snd
        (train_step quiet_world 0 1 1000 \<lparr>training = True, grad = True, scores = [], pos = 0\<rparr>)
       = Some (Next \<lparr>training = False, grad = True, scores = [], pos = 1\<rparr>)"
proof -
  have "(0, Some 0, Fid False False) \<in> set (run_trace (train hp_example quiet_world))"
    by (rule quiet_run_step_0) (simp add: quiet_step_0)
  moreover have "map_option snd
        (train_step quiet_world 0 1 1000 \<lparr>training = True, grad = True, scores = [], pos = 0\<rparr>)
       = Some (Next \<lparr>training = False, grad = True, scores = [], pos = 1\<rparr>)"
    by (simp add: train_step_def vae_train_def vae_eval_def no_grad_def sample_data_some
        fault_in_def qual_probe_def quant_probe_def qual_due_iff quant_due_iff quiet_world_def
        Let_def)
  ultimately show ?thesis
    by simp
qed

text \<open>
  C7 fails on the code. With \<open>alpha = 100\<close> and one pixel, \<open>real = 0\<close> and \<open>fake = 1\<close>
  (\<open>t = 1\<close>) give a reconstruction term between 0.98 and 1, and the call with the two
  swapped (\<open>t = -1\<close>) gives \<open>+inf\<close>: \<open>exp(-2 * alpha * t)\<close> is \<open>exp(200)\<close> there, beyond
  \<open>float32\<close>. The expression of line 163 is the form of \<open>log cosh\<close> that is stable for
  \<open>t \<ge> 0\<close> only.
\<close>

theorem reconstruction_overflows_on_one_side:
  "(\<exists>dict r. loss sharp_vae [Fin 0] [Fin 1] [[Fin 0]] [[Fin 0]] = Inr dict
       \<and> Reconstruction dict = Fin r \<and> 98 / 100 < r \<and> r < 1)
   \<and> (\<exists>dict. loss sharp_vae [Fin 1] [Fin 0] [[Fin 0]] [[Fin 0]] = Inr dict
         \<and> Reconstruction dict = PInf)"
  using recons_loss_finite recons_loss_overflow by (simp add: loss_def Let_def sharp_vae_def)

text \<open>
  C8. On a non-empty batch whose \<open>mu\<close> and \<open>log_var\<close> are 0 in every latent dimension,
  the KL term \<open>mean(-0.5 * sum(1 + log_var - mu^2 - exp(log_var), dim=1), dim=0)\<close> is
  exactly 0, as computed in \<open>float32\<close>, and exactly 0 is the entry the loss reports for
  it. The one case in which the loss reports nothing is \<open>alpha = 0\<close>, where line 164
  raises \<open>ZeroDivisionError\<close>.
\<close>

theorem kld_zero_at_prior:
  assumes "0 < b"
  shows "kld_loss (replicate b (replicate d (Fin 0))) (replicate b (replicate d (Fin 0))) = Fin 0
       \<and> map_sum id Kullback_Leibler_Divergence
            (loss self reals fakes (replicate b (replicate d (Fin 0)))
               (replicate b (replicate d (Fin 0))))
           = (if alpha self = 0 then Inl (OtherError ''ZeroDivisionError'') else Inr (Fin 0))"
  using kld_zeros [OF assms, of d] by (simp add: loss_def Let_def)

text \<open>The theorem at a batch of 3 with 2 latent dimensions.\<close>

theorem kld_zero_at_prior_witness:
  "kld_loss (replicate 3 (replicate 2 (Fin 0))) (replicate 3 (replicate 2 (Fin 0))) = Fin 0
   \<and> map_sum id Kullback_Leibler_Divergence
        (loss vae_example [Fin 1] [Fin 0] (replicate 3 (replicate 2 (Fin 0)))
           (replicate 3 (replicate 2 (Fin 0))))
       = Inr (Fin 0)"
  using kld_zero_at_prior [of 3 2 vae_example "[Fin 1]" "[Fin 0]"] by (simp add: vae_example_def)

text \<open>
  C9. An attempt that completes has begun the steps 0 to 19999, each once and in order,
  and has appended six samples to \<open>scores\<close>: the scores of the steps 10000, 12000, 14000,
  16000, 18000 and 19999, in this order.
\<close>

theorem six_samples:
  assumes "attempt hp w a b v = Some (evs, Completed)"
  shows "appended a evs =
           map (\<lambda>i. (i, score w a i)) [10000, 12000, 14000, 16000, 18000, 19999]
       \<and> steps_begun a evs = [0..<20000]"
proof -
  have "steps_begun a evs = [0..<20000]"
    using attempt_completed(1) [OF assms]
    by (simp add: steps_begun_append steps_begun_steps steps_begun_other num_iters_def)
  with attempt_appended [OF assms] show ?thesis
    by simp
qed

text \<open>The theorem at the first attempt of the world in which nothing fails.\<close>

theorem six_samples_witness:
  "\<exists>evs. attempt hp_example quiet_world 0 512 Unbound = Some (evs, Completed)
     \<and> appended 0 evs =
         [(10000, 0), (12000, 0), (14000, 0), (16000, 0), (18000, 0), (19999, 0)]"
proof -
  obtain evs where att: "attempt hp_example quiet_world 0 512 Unbound = Some (evs, Completed)"
    using quiet_attempt by blast
  from six_samples [OF att] have
    "appended 0 evs = [(10000, 0), (12000, 0), (14000, 0), (16000, 0), (18000, 0), (19999, 0)]"
    by (simp add: score_def quiet_world_def)
  with att show ?thesis
    by blast
qed

text \<open>
  C10. A run that aborts on a NaN loss ends with the whole of the step whose loss was NaN:
  the switch to training mode, the forward pass, the NaN loss, the update, the telemetry,
  the qualitative probe if it is due, the quantitative probe if it is due, with the append
  of its score when \<open>i \<ge> num_iters / 2\<close>, and only then the message and the penalty score
  27000.
\<close>

theorem nan_check_is_last:
  assumes "train hp w = Some (tr, NanAbort)"
  shows "\<exists>a i pre. tr = pre @
           [(a, Some i, ModeTrain), (a, Some i, Forward True True), (a, Some i, Loss True),
            (a, Some i, Update True True), (a, Some i, Telemetry)] @
           (if qual_due i
            then [(a, Some i, ModeEval), (a, Some i, Reconstruct False False),
                  (a, Some i, Generate False False)]
            else []) @
           (if quant_due i
            then [(a, Some i, Fid False False), (a, Some i, Score (score w a i))] @
                 (if past_half i then [(a, Some i, Append (score w a i))] else [])
            else []) @
           [(a, Some i, Print ''NaN losses, exiting...''), (a, Some i, Score 27000)]"
proof -
  from train_last_attempt [OF assms] obtain a b v evs pre where
    att: "attempt hp w a b v = Some (evs, NanAborted)" and
    tr: "tr = pre @ (a, None, Try b) # evs"
    by auto
  from attempt_nan [OF att] obtain before i where
    ev: "evs = setup_events hp a b @ steps_events w a True before @ step_events w a i True @
           nan_exit_events a i" and
    nan: "loss_isnan w a i"
    by blast
  define pre' where "pre' = pre @ (a, None, Try b) # setup_events hp a b @ steps_events w a True before"
  have eq: "tr = pre' @
           [(a, Some i, ModeTrain), (a, Some i, Forward True True), (a, Some i, Loss True),
            (a, Some i, Update True True), (a, Some i, Telemetry)] @
           (if qual_due i
            then [(a, Some i, ModeEval), (a, Some i, Reconstruct False False),
                  (a, Some i, Generate False False)]
            else []) @
           (if quant_due i
            then [(a, Some i, Fid False False), (a, Some i, Score (score w a i))] @
                 (if past_half i then [(a, Some i, Append (score w a i))] else [])
            else []) @
           [(a, Some i, Print ''NaN losses, exiting...''), (a, Some i, Score 27000)]"
    using tr ev nan by (simp add: pre'_def step_events_def nan_exit_events_def)
  show ?thesis
    by (rule exI [of _ a], rule exI [of _ i], rule exI [of _ pre'], rule eq)
qed

text \<open>The theorem at the run whose loss is NaN in step 10000, a step with both probes.\<close>

theorem nan_check_is_last_witness:
  "\<exists>pre. run_trace (train hp_example nan_world) = pre @
     [(0, Some 10000, ModeTrain), (0, Some 10000, Forward True True), (0, Some 10000, Loss True),
      (0, Some 10000, Update True True), (0, Some 10000, Telemetry), (0, Some 10000, ModeEval),
      (0, Some 10000, Reconstruct False False), (0, Some 10000, Generate False False),
      (0, Some 10000, Fid False False), (0, Some 10000, Score 0), (0, Some 10000, Append 0),
      (0, Some 10000, Print ''NaN losses, exiting...''), (0, Some 10000, Score 27000)]"
proof -
  obtain tr where run: "train hp_example nan_world = Some (tr, NanAbort)"
    and last: "last tr = (0, Some 10000, Score 27000)"
    by (simp add: nan_run nan_exit_events_def)
  from nan_check_is_last [OF run] obtain a i pre where
    tr: "tr = pre @
           [(a, Some i, ModeTrain), (a, Some i, Forward True True), (a, Some i, Loss True),
            (a, Some i, Update True True), (a, Some i, Telemetry)] @
           (if qual_due i
            then [(a, Some i, ModeEval), (a, Some i, Reconstruct False False),
                  (a, Some i, Generate False False)]
            else []) @
           (if quant_due i
            then [(a, Some i, Fid False False), (a, Some i, Score (score nan_world a i))] @
                 (if past_half i then [(a, Some i, Append (score nan_world a i))] else [])
            else []) @
           [(a, Some i, Print ''NaN losses, exiting...''), (a, Some i, Score 27000)]"
    by blast
  from tr last have "a = 0" and "i = 10000"
    by simp_all
  with tr have "tr = pre @
     [(0, Some 10000, ModeTrain), (0, Some 10000, Forward True True), (0, Some 10000, Loss True),
      (0, Some 10000, Update True True), (0, Some 10000, Telemetry), (0, Some 10000, ModeEval),
      (0, Some 10000, Reconstruct False False), (0, Some 10000, Generate False False),
      (0, Some 10000, Fid False False), (0, Some 10000, Score 0), (0, Some 10000, Append 0),
      (0, Some 10000, Print ''NaN losses, exiting...''), (0, Some 10000, Score 27000)]"
    by (simp add: qual_due_iff quant_due_iff past_half_iff score_def nan_world_def quiet_world_def)
  with run show ?thesis
    by (simp add: run_trace_def)
qed

end
